theory Spec2Isabelle
  imports Main "HOL-Library.Multiset"
begin

section \<open>The directed graph the scripts build\<close>

text \<open>
  The scripts keep their link graph in a \<^verbatim>\<open>networkx.DiGraph\<close>. Of that class they use
  \<^verbatim>\<open>add_node(n, depth=d)\<close>, \<^verbatim>\<open>add_edge(u, v)\<close>, \<^verbatim>\<open>n in graph\<close> and the node attribute
  \<^verbatim>\<open>depth\<close>. A DiGraph stores its nodes in a dict from node to attribute dict and its
  edges in adjacency dicts, both in insertion order; the only attribute ever set is
  \<^verbatim>\<open>depth\<close>, so the attribute dict of a node is an \<open>int option\<close> (\<open>None\<close>: the node has
  no \<^verbatim>\<open>depth\<close> key).
\<close>

record DiGraph =
  nodes :: "(string \<times> int option) list"
  edges :: "(string \<times> string) list"

definition DiGraph_empty :: DiGraph where
  "DiGraph_empty = \<lparr>nodes = [], edges = []\<rparr>"

definition has_node :: "DiGraph \<Rightarrow> string \<Rightarrow> bool" where
  "has_node g n = (n \<in> fst ` set (nodes g))"

text \<open>Writing key \<open>n\<close> of a dict: the value is replaced in place, a new key goes last.\<close>

fun dict_set :: "('k \<times> 'v) list \<Rightarrow> 'k \<Rightarrow> 'v \<Rightarrow> ('k \<times> 'v) list" where
  "dict_set [] k v = [(k, v)]"
| "dict_set ((k', v') # kvs) k v =
     (if k' = k then (k, v) # kvs else (k', v') # dict_set kvs k v)"

text \<open>\<^verbatim>\<open>graph.add_node(n, depth=d)\<close>: creates the node if needed and updates its attributes.\<close>

definition add_node :: "DiGraph \<Rightarrow> string \<Rightarrow> int \<Rightarrow> DiGraph" where
  "add_node g n d = g\<lparr>nodes := dict_set (nodes g) n (Some d)\<rparr>"

text \<open>The node creation inside \<^verbatim>\<open>add_edge\<close>: a missing endpoint is added with no attribute.\<close>

definition touch_node :: "DiGraph \<Rightarrow> string \<Rightarrow> DiGraph" where
  "touch_node g n = (if has_node g n then g else g\<lparr>nodes := nodes g @ [(n, None)]\<rparr>)"

definition add_edge :: "DiGraph \<Rightarrow> string \<Rightarrow> string \<Rightarrow> DiGraph" where
  "add_edge g u v =
     (let g1 = touch_node g u;
          g2 = touch_node g1 v
      in if (u, v) \<in> set (edges g2) then g2 else g2\<lparr>edges := edges g2 @ [(u, v)]\<rparr>)"

text \<open>\<^verbatim>\<open>graph.nodes[n].get('depth')\<close>, \<open>None\<close> for a missing node or a missing attribute.\<close>

definition depth_of :: "DiGraph \<Rightarrow> string \<Rightarrow> int option" where
  "depth_of g n = (case map_of (nodes g) n of Some (Some d) \<Rightarrow> Some d | _ \<Rightarrow> None)"

section \<open>Graph assembly from the stored rows (visualize\_from\_db.py)\<close>

text \<open>
  A row of \<^verbatim>\<open>website_links\<close> as the query returns it: source, target and, when the table
  has the column \<^verbatim>\<open>crawl_depth\<close>, the depth (\<open>None\<close>: the column was not selected, the
  row has two fields). The writers of this repository always store an integer depth.
\<close>

type_synonym row = "string \<times> string \<times> int option"

text \<open>
  The body of the loop of \<^verbatim>\<open>create_graph_from_duckdb\<close>, with the nested test of the
  source kept as it is written: the inner \<^verbatim>\<open>else\<close> (update the depth when a shallower
  path is found) sits under the outer \<^verbatim>\<open>if target_url not in graph\<close>.
\<close>

definition add_row :: "DiGraph \<Rightarrow> row \<Rightarrow> DiGraph" where
  "add_row g r =
     (case r of (source_url, target_url, cell) \<Rightarrow>
        let crawl_depth = (case cell of Some d \<Rightarrow> d | None \<Rightarrow> 0);
            g1 = (if \<not> has_node g source_url then add_node g source_url crawl_depth else g);
            g2 = (if \<not> has_node g1 target_url then
                    (if \<not> has_node g1 target_url then add_node g1 target_url (crawl_depth + 1)
                     else (case depth_of g1 target_url of
                             None \<Rightarrow> add_node g1 target_url (crawl_depth + 1)
                           | Some current_target_depth \<Rightarrow>
                               if crawl_depth + 1 < current_target_depth
                               then add_node g1 target_url (crawl_depth + 1) else g1))
                  else g1)
        in add_edge g2 source_url target_url)"

definition populate :: "row list \<Rightarrow> DiGraph" where
  "populate data = foldl add_row DiGraph_empty data"

text \<open>
  The function on the rows it has read; \<open>None\<close> stands for a \<^verbatim>\<open>duckdb.Error\<close> while
  connecting or querying, on which the function returns \<^verbatim>\<open>None\<close>.
\<close>

definition build_graph :: "row list \<Rightarrow> string \<Rightarrow> DiGraph" where
  "build_graph data start_url =
     (let graph = populate data
      in if has_node graph start_url then add_node graph start_url 0 else graph)"

definition create_graph_from_duckdb :: "row list option \<Rightarrow> string \<Rightarrow> DiGraph option" where
  "create_graph_from_duckdb db start_url =
     (case db of None \<Rightarrow> None | Some data \<Rightarrow> Some (build_graph data start_url))"

text \<open>The depth a row records: the third field, 0 when the query returned two fields.\<close>

definition row_depth :: "row \<Rightarrow> int" where
  "row_depth r = (case r of (s, t, cell) \<Rightarrow> (case cell of Some d \<Rightarrow> d | None \<Rightarrow> 0))"

text \<open>
  What the loop body does to the endpoints of a row, without the branch that can never
  run: each endpoint absent from the graph is added, the source with the row's depth,
  the target with one more (used in the proofs below, and proved equal to the code).
\<close>

definition with_endpoints :: "DiGraph \<Rightarrow> row \<Rightarrow> DiGraph" where
  "with_endpoints g r =
     (case r of (s, t, c) \<Rightarrow>
        let g1 = (if has_node g s then g else add_node g s (row_depth r))
        in if has_node g1 t then g1 else add_node g1 t (row_depth r + 1))"

definition mentions :: "row \<Rightarrow> string \<Rightarrow> bool" where
  "mentions r n = (case r of (s, t, c) \<Rightarrow> s = n \<or> t = n)"

text \<open>
  Target depth at most source depth plus one on every edge, both endpoints carrying a
  depth attribute.
\<close>

definition depth_step_ok :: "DiGraph \<Rightarrow> bool" where
  "depth_step_ok g =
     (\<forall>e\<in>set (edges g).
        case (depth_of g (fst e), depth_of g (snd e)) of
          (Some ds, Some dt) \<Rightarrow> dt \<le> ds + 1
        | _ \<Rightarrow> False)"

text \<open>
  The depth the specification asks for, in its own words: the minimum depth at which a
  node was ever observed as a target (the edge's depth plus one), the seed being 0.
  \<open>None\<close> when the node is not the seed and no row has it as target.
\<close>

definition target_observations :: "row list \<Rightarrow> string \<Rightarrow> int list" where
  "target_observations data n = map (\<lambda>r. row_depth r + 1) (filter (\<lambda>r. fst (snd r) = n) data)"

definition spec_min_depth :: "row list \<Rightarrow> string \<Rightarrow> string \<Rightarrow> int option" where
  "spec_min_depth data seed n =
     (if n = seed then Some 0
      else case target_observations data n of
             [] \<Rightarrow> None
           | d # ds \<Rightarrow> Some (fold min ds d))"

text \<open>
  Rows about a site whose page \<^verbatim>\<open>http://e.com/\<close> links to \<^verbatim>\<open>/a\<close> and \<^verbatim>\<open>/b\<close>, page \<^verbatim>\<open>/a\<close>
  linking to \<^verbatim>\<open>/b\<close> and \<^verbatim>\<open>/c\<close>, the row of depth 1 that mentions \<^verbatim>\<open>/b\<close> coming first:
  what the function reads when the query does not return the rows in the order a crawl
  inserted them (it has no \<^verbatim>\<open>ORDER BY\<close>), or when the table was written otherwise.
\<close>

definition rows_reordered :: "row list" where
  "rows_reordered =
     [(''http://e.com/a'', ''http://e.com/b'', Some 1),
      (''http://e.com/'', ''http://e.com/a'', Some 0),
      (''http://e.com/'', ''http://e.com/b'', Some 0),
      (''http://e.com/a'', ''http://e.com/c'', Some 1)]"

section \<open>URL parsing and joining (urllib.parse of the standard library)\<close>

text \<open>
  Link extraction is \<^verbatim>\<open>urljoin(urljoin(url, href), urlparse(...).path)\<close>, so what the
  scripts compute is decided by \<^verbatim>\<open>urllib.parse\<close>. The functions below follow
  \<^verbatim>\<open>Lib/urllib/parse.py\<close> of CPython 3.11 on \<^verbatim>\<open>str\<close> arguments, statement by statement.
  A Python string is modelled by a \<open>string\<close>: a sequence of code points below 256.
  On such strings \<^verbatim>\<open>_checknetloc\<close> never raises (the NFKC form of a code point below 256
  contains none of \<^verbatim>\<open>/?#@:\<close>), so it is left out. \<^verbatim>\<open>ipaddress.ip_address\<close>, called
  on a bracketed host, is a parameter \<open>ip\<close> of the model.
\<close>

datatype error = ValueError

datatype ip_version = IPv4Address | IPv6Address

type_synonym ip_parser = "string \<Rightarrow> ip_version option"

subsection \<open>String operations\<close>

text \<open>\<^verbatim>\<open>s.find(c)\<close> and \<^verbatim>\<open>s.find(c, start)\<close>, \<open>None\<close> for \<^verbatim>\<open>-1\<close>; \<^verbatim>\<open>s.rfind(c)\<close>.\<close>

fun find :: "string \<Rightarrow> char \<Rightarrow> nat option" where
  "find [] c = None"
| "find (x # xs) c = (if x = c then Some 0 else map_option Suc (find xs c))"

definition find_from :: "string \<Rightarrow> char \<Rightarrow> nat \<Rightarrow> nat option" where
  "find_from s c start = map_option (\<lambda>i. i + start) (find (drop start s) c)"

definition rfind :: "string \<Rightarrow> char \<Rightarrow> nat option" where
  "rfind s c = map_option (\<lambda>i. length s - 1 - i) (find (rev s) c)"

text \<open>\<^verbatim>\<open>s.split(c)\<close> for a one-character separator, and \<^verbatim>\<open>sep.join(parts)\<close>.\<close>

fun str_split :: "string \<Rightarrow> char \<Rightarrow> string list" where
  "str_split [] c = [[]]"
| "str_split (x # xs) c =
     (if x = c then [] # str_split xs c
      else (case str_split xs c of
              w # ws \<Rightarrow> (x # w) # ws
            | [] \<Rightarrow> [[x]]))"

fun str_join :: "string \<Rightarrow> string list \<Rightarrow> string" where
  "str_join sep [] = []"
| "str_join sep [x] = x"
| "str_join sep (x # y # ys) = x @ sep @ str_join sep (y # ys)"

text \<open>\<^verbatim>\<open>s.split(c, 1)\<close> when \<open>c\<close> occurs in \<open>s\<close>: the text before and after its first occurrence.\<close>

definition split_once :: "string \<Rightarrow> char \<Rightarrow> string \<times> string" where
  "split_once s c = (takeWhile (\<lambda>x. x \<noteq> c) s, drop 1 (dropWhile (\<lambda>x. x \<noteq> c) s))"

subsection \<open>Character classes and scheme tables\<close>

definition scheme_chars :: string where
  "scheme_chars = ''abcdefghijklmnopqrstuvwxyzABCDEFGHIJKLMNOPQRSTUVWXYZ0123456789+-.''"

text \<open>\<^verbatim>\<open>_WHATWG_C0_CONTROL_OR_SPACE\<close>: the code points 0 to 32.\<close>

definition c0_control_or_space :: "char \<Rightarrow> bool" where
  "c0_control_or_space c = ((of_char c :: nat) \<le> 32)"

text \<open>\<^verbatim>\<open>_UNSAFE_URL_BYTES_TO_REMOVE\<close>: tab, carriage return, line feed.\<close>

definition unsafe_url_byte :: "char \<Rightarrow> bool" where
  "unsafe_url_byte c = (c = CHR 0x09 \<or> c = CHR 0x0D \<or> c = CHR 0x0A)"

text \<open>\<^verbatim>\<open>c.isascii() and c.isalpha()\<close>.\<close>

definition ascii_alpha :: "char \<Rightarrow> bool" where
  "ascii_alpha c = (c \<in> set ''abcdefghijklmnopqrstuvwxyzABCDEFGHIJKLMNOPQRSTUVWXYZ'')"

text \<open>\<^verbatim>\<open>str.lower\<close> on one character; it is applied to scheme characters only.\<close>

definition lower :: "char \<Rightarrow> char" where
  "lower c =
     (case map_of (zip ''ABCDEFGHIJKLMNOPQRSTUVWXYZ'' ''abcdefghijklmnopqrstuvwxyz'') c of
        Some l \<Rightarrow> l
      | None \<Rightarrow> c)"

definition uses_relative :: "string list" where
  "uses_relative = ['''', ''ftp'', ''http'', ''gopher'', ''nntp'', ''imap'',
                    ''wais'', ''file'', ''https'', ''shttp'', ''mms'',
                    ''prospero'', ''rtsp'', ''rtsps'', ''rtspu'', ''sftp'',
                    ''svn'', ''svn+ssh'', ''ws'', ''wss'']"

definition uses_netloc :: "string list" where
  "uses_netloc = ['''', ''ftp'', ''http'', ''gopher'', ''nntp'', ''telnet'',
                  ''imap'', ''wais'', ''file'', ''mms'', ''https'', ''shttp'',
                  ''snews'', ''prospero'', ''rtsp'', ''rtsps'', ''rtspu'', ''rsync'',
                  ''svn'', ''svn+ssh'', ''sftp'', ''nfs'', ''git'', ''git+ssh'',
                  ''ws'', ''wss'']"

definition uses_params :: "string list" where
  "uses_params = ['''', ''ftp'', ''hdl'', ''prospero'', ''http'', ''imap'',
                  ''https'', ''shttp'', ''rtsp'', ''rtsps'', ''rtspu'', ''sip'',
                  ''sips'', ''mms'', ''sftp'', ''tel'']"

subsection \<open>urlsplit and urlparse\<close>

record SplitResult =
  scheme :: string
  netloc :: string
  path :: string
  query :: string
  fragment :: string

record ParseResult = SplitResult +
  params :: string

text \<open>\<^verbatim>\<open>_splitnetloc(url, 2)\<close>: the text from index 2 to the first of \<^verbatim>\<open>/?#\<close>, and the rest.\<close>

definition netloc_delim :: "char \<Rightarrow> bool" where
  "netloc_delim c = (c = CHR ''/'' \<or> c = CHR ''?'' \<or> c = CHR ''#'')"

definition splitnetloc :: "string \<Rightarrow> string \<times> string" where
  "splitnetloc url =
     (takeWhile (\<lambda>c. \<not> netloc_delim c) (drop 2 url),
      dropWhile (\<lambda>c. \<not> netloc_delim c) (drop 2 url))"

text \<open>
  \<^verbatim>\<open>_check_bracketed_host\<close>. A host starting with \<^verbatim>\<open>v\<close> must match
  \<^verbatim>\<open>\Av[a-fA-F0-9]+\..+\Z\<close>: hexadecimal digits, a dot, and at least one more character
  (none a line feed). Any other host must be an IPv6 address for \<^verbatim>\<open>ipaddress\<close>.
\<close>

definition hex_digit :: "char \<Rightarrow> bool" where
  "hex_digit c = (c \<in> set ''abcdefABCDEF0123456789'')"

definition ipvfuture_ok :: "string \<Rightarrow> bool" where
  "ipvfuture_ok hostname =
     (let after_v = drop 1 hostname;
          digits = takeWhile hex_digit after_v;
          rest = dropWhile hex_digit after_v
      in digits \<noteq> [] \<and> take 1 rest = ''.'' \<and> drop 1 rest \<noteq> [] \<and>
         CHR 0x0A \<notin> set (drop 1 rest))"

definition check_bracketed_host :: "ip_parser \<Rightarrow> string \<Rightarrow> error + unit" where
  "check_bracketed_host ip hostname =
     (if take 1 hostname = ''v'' then
        (if \<not> ipvfuture_ok hostname then Inl ValueError else Inr ())
      else (case ip hostname of
              None \<Rightarrow> Inl ValueError
            | Some IPv4Address \<Rightarrow> Inl ValueError
            | Some IPv6Address \<Rightarrow> Inr ()))"

text \<open>\<^verbatim>\<open>netloc.partition('[')[2].partition(']')[0]\<close>.\<close>

definition bracketed_host :: "string \<Rightarrow> string" where
  "bracketed_host nl =
     takeWhile (\<lambda>c. c \<noteq> CHR '']'') (drop 1 (dropWhile (\<lambda>c. c \<noteq> CHR ''['') nl))"

text \<open>The end of \<^verbatim>\<open>urlsplit\<close>: fragment and query are cut off what follows the netloc.\<close>

definition split_rest :: "string \<Rightarrow> string \<Rightarrow> string \<Rightarrow> SplitResult" where
  "split_rest sch nl url =
     (let (url1, frag) = (if CHR ''#'' \<in> set url then split_once url (CHR ''#'') else (url, []));
          (url2, qry) = (if CHR ''?'' \<in> set url1 then split_once url1 (CHR ''?'') else (url1, []))
      in \<lparr>scheme = sch, netloc = nl, path = url2, query = qry, fragment = frag\<rparr>)"

text \<open>
  The scheme detection of \<^verbatim>\<open>urlsplit\<close>: a colon at an index above 0, after a first
  character that is an ASCII letter and only scheme characters, ends the scheme.
\<close>

definition split_scheme :: "string \<Rightarrow> string \<Rightarrow> string \<times> string" where
  "split_scheme url default_scheme =
     (case find url (CHR '':'') of
        None \<Rightarrow> (default_scheme, url)
      | Some i \<Rightarrow>
          if 0 < i \<and> ascii_alpha (hd url) \<and> (\<forall>c\<in>set (take i url). c \<in> set scheme_chars)
          then (map lower (take i url), drop (i + 1) url)
          else (default_scheme, url))"

definition strip_c0 :: "string \<Rightarrow> string" where
  "strip_c0 s = rev (dropWhile c0_control_or_space (rev (dropWhile c0_control_or_space s)))"

definition urlsplit :: "ip_parser \<Rightarrow> string \<Rightarrow> string \<Rightarrow> error + SplitResult" where
  "urlsplit ip url0 scheme0 =
     (let url1 = filter (\<lambda>c. \<not> unsafe_url_byte c) (dropWhile c0_control_or_space url0);
          scheme1 = filter (\<lambda>c. \<not> unsafe_url_byte c) (strip_c0 scheme0);
          (sch, url) = split_scheme url1 scheme1
      in if take 2 url = ''//'' then
           (let (nl, rest) = splitnetloc url
            in if (CHR ''['' \<in> set nl \<and> CHR '']'' \<notin> set nl) \<or>
                  (CHR '']'' \<in> set nl \<and> CHR ''['' \<notin> set nl) then Inl ValueError
               else if CHR ''['' \<in> set nl \<and> CHR '']'' \<in> set nl then
                 (case check_bracketed_host ip (bracketed_host nl) of
                    Inl e \<Rightarrow> Inl e
                  | Inr _ \<Rightarrow> Inr (split_rest sch nl rest))
               else Inr (split_rest sch nl rest))
         else Inr (split_rest sch [] url))"

text \<open>
  \<^verbatim>\<open>_splitparams\<close>. With a slash in \<open>url\<close> the semicolon is looked for from the last slash
  on, and its absence returns \<open>url\<close> whole; without a slash the first semicolon is
  taken, and \<^verbatim>\<open>find\<close> answering \<^verbatim>\<open>-1\<close> makes the slices \<^verbatim>\<open>url[:-1]\<close> and \<^verbatim>\<open>url[0:]\<close>.
\<close>

definition splitparams :: "string \<Rightarrow> string \<times> string" where
  "splitparams url =
     (if CHR ''/'' \<in> set url then
        (case find_from url (CHR '';'') (case rfind url (CHR ''/'') of Some j \<Rightarrow> j | None \<Rightarrow> 0) of
           None \<Rightarrow> (url, [])
         | Some i \<Rightarrow> (take i url, drop (i + 1) url))
      else (case find url (CHR '';'') of
              None \<Rightarrow> (butlast url, url)
            | Some i \<Rightarrow> (take i url, drop (i + 1) url)))"

definition urlparse :: "ip_parser \<Rightarrow> string \<Rightarrow> string \<Rightarrow> error + ParseResult" where
  "urlparse ip url scheme0 =
     (case urlsplit ip url scheme0 of
        Inl e \<Rightarrow> Inl e
      | Inr r \<Rightarrow>
          let (url', prm) = (if scheme r \<in> set uses_params \<and> CHR '';'' \<in> set (path r)
                             then splitparams (path r) else (path r, []))
          in Inr \<lparr>scheme = scheme r, netloc = netloc r, path = url', query = query r,
                  fragment = fragment r, params = prm\<rparr>)"

subsection \<open>urlunsplit and urlunparse\<close>

definition urlunsplit :: "string \<Rightarrow> string \<Rightarrow> string \<Rightarrow> string \<Rightarrow> string \<Rightarrow> string" where
  "urlunsplit sch nl url0 qry frag =
     (let url1 = (if nl \<noteq> [] \<or> (sch \<noteq> [] \<and> sch \<in> set uses_netloc) \<or> take 2 url0 = ''//''
                  then ''//'' @ nl @ (if url0 \<noteq> [] \<and> take 1 url0 \<noteq> ''/'' then ''/'' @ url0 else url0)
                  else url0);
          url2 = (if sch \<noteq> [] then sch @ '':'' @ url1 else url1);
          url3 = (if qry \<noteq> [] then url2 @ ''?'' @ qry else url2)
      in if frag \<noteq> [] then url3 @ ''#'' @ frag else url3)"

definition urlunparse :: "string \<Rightarrow> string \<Rightarrow> string \<Rightarrow> string \<Rightarrow> string \<Rightarrow> string \<Rightarrow> string" where
  "urlunparse sch nl url prm qry frag =
     urlunsplit sch nl (if prm \<noteq> [] then url @ '';'' @ prm else url) qry frag"

subsection \<open>urljoin\<close>

text \<open>
  The loop over the segments: \<^verbatim>\<open>..\<close> pops the last resolved segment (an empty list is
  left alone, the \<^verbatim>\<open>IndexError\<close> being caught), \<^verbatim>\<open>.\<close> is skipped, anything else is
  appended.
\<close>

fun resolve :: "string list \<Rightarrow> string list \<Rightarrow> string list" where
  "resolve [] resolved_path = resolved_path"
| "resolve (seg # segments) resolved_path =
     (if seg = ''..'' then resolve segments (butlast resolved_path)
      else if seg = ''.'' then resolve segments resolved_path
      else resolve segments (resolved_path @ [seg]))"

text \<open>\<^verbatim>\<open>segments[1:-1] = filter(None, segments[1:-1])\<close>.\<close>

definition drop_empty_inner :: "string list \<Rightarrow> string list" where
  "drop_empty_inner segments =
     (case segments of
        [] \<Rightarrow> []
      | s # rest \<Rightarrow>
          if rest = [] then [s]
          else s # filter (\<lambda>x. x \<noteq> []) (butlast rest) @ [last rest])"

text \<open>What \<^verbatim>\<open>urljoin\<close> does once both arguments are parsed.\<close>

definition join_parsed :: "ParseResult \<Rightarrow> ParseResult \<Rightarrow> string \<Rightarrow> string" where
  "join_parsed b u url =
     (if scheme u \<noteq> scheme b \<or> scheme u \<notin> set uses_relative then url
      else if scheme u \<in> set uses_netloc \<and> netloc u \<noteq> [] then
        urlunparse (scheme u) (netloc u) (path u) (params u) (query u) (fragment u)
      else
        (let nl = (if scheme u \<in> set uses_netloc then netloc b else netloc u)
         in if path u = [] \<and> params u = [] then
              urlunparse (scheme u) nl (path b) (params b)
                (if query u = [] then query b else query u) (fragment u)
            else
              (let base_parts0 = str_split (path b) (CHR ''/'');
                   base_parts = (if last base_parts0 \<noteq> [] then butlast base_parts0
                                 else base_parts0);
                   segments = (if take 1 (path u) = ''/'' then str_split (path u) (CHR ''/'')
                               else drop_empty_inner
                                      (base_parts @ str_split (path u) (CHR ''/'')));
                   resolved0 = resolve segments [];
                   resolved_path = (if last segments = ''.'' \<or> last segments = ''..''
                                    then resolved0 @ [[]] else resolved0);
                   joined = str_join ''/'' resolved_path
               in urlunparse (scheme u) nl (if joined = [] then ''/'' else joined)
                    (params u) (query u) (fragment u))))"

definition urljoin :: "ip_parser \<Rightarrow> string \<Rightarrow> string \<Rightarrow> error + string" where
  "urljoin ip base url =
     (if base = [] then Inr url
      else if url = [] then Inr base
      else (case urlparse ip base [] of
              Inl e \<Rightarrow> Inl e
            | Inr b \<Rightarrow>
                (case urlparse ip url (scheme b) of
                   Inl e \<Rightarrow> Inl e
                 | Inr u \<Rightarrow> Inr (join_parsed b u url))))"

section \<open>Link extraction (scrape\_rps.py, scrape\_to\_duckdb.py, full\_network\_scraper.py)\<close>

text \<open>
  What the scripts do not decide themselves is collected in an environment:
  \<^item> \<open>requests_get n url\<close>: the outcome of \<^verbatim>\<open>requests.get(url, timeout=...)\<close> followed by
    \<^verbatim>\<open>raise_for_status()\<close> when \<open>n\<close> requests have been made before. Either a
    \<^verbatim>\<open>RequestException\<close> (connection error, timeout, HTTP error status), or a page, given
    by the \<^verbatim>\<open>href\<close> values of its \<^verbatim>\<open>a\<close> tags in document order (HTML parsing is
    BeautifulSoup's);
  \<^item> \<open>list_of_set xs\<close>: the order in which \<^verbatim>\<open>list(links)\<close> enumerates the set built by
    adding the elements of \<open>xs\<close> in turn (any function: Python does not fix the order);
  \<^item> \<open>executemany_ok n\<close>: whether the insert into \<^verbatim>\<open>website_links\<close> after the \<open>n\<close>-th request
    succeeds (otherwise \<^verbatim>\<open>duckdb.Error\<close> is caught and the rows are lost);
  \<^item> \<open>ip_address\<close>: \<^verbatim>\<open>ipaddress.ip_address\<close>, for bracketed hosts.
\<close>

datatype response = RequestException | Response "string list"

record env =
  requests_get :: "nat \<Rightarrow> string \<Rightarrow> response"
  list_of_set :: "string list \<Rightarrow> string list"
  executemany_ok :: "nat \<Rightarrow> bool"
  ip_address :: ip_parser

text \<open>
  The body of the loop over the \<^verbatim>\<open>a\<close> tags, in two steps. \<open>clean_absolute\<close> is what
  follows \<^verbatim>\<open>absolute_url = urljoin(url, href)\<close>: the filter on scheme and netloc, and
  \<^verbatim>\<open>clean_url = urljoin(absolute_url, parsed_url.path)\<close>; \<open>None\<close> when the filter rejects
  the URL. \<open>clean_link\<close> is the whole body: the URL added to \<^verbatim>\<open>links\<close> for one \<^verbatim>\<open>href\<close>.
  A \<^verbatim>\<open>ValueError\<close> of \<^verbatim>\<open>urljoin\<close> or \<^verbatim>\<open>urlparse\<close> is not caught by the scripts.
\<close>

definition clean_absolute :: "ip_parser \<Rightarrow> string \<Rightarrow> error + string option" where
  "clean_absolute ip absolute_url =
     (case urlparse ip absolute_url [] of
        Inl e \<Rightarrow> Inl e
      | Inr parsed_url \<Rightarrow>
          if scheme parsed_url \<in> set [''http'', ''https''] \<and> netloc parsed_url \<noteq> [] then
            (case urljoin ip absolute_url (path parsed_url) of
               Inl e \<Rightarrow> Inl e
             | Inr clean_url \<Rightarrow> Inr (Some clean_url))
          else Inr None)"

definition clean_link :: "ip_parser \<Rightarrow> string \<Rightarrow> string \<Rightarrow> error + string option" where
  "clean_link ip url href =
     (case urljoin ip url href of
        Inl e \<Rightarrow> Inl e
      | Inr absolute_url \<Rightarrow> clean_absolute ip absolute_url)"

text \<open>
  The loop: \<open>links\<close> holds the elements of the set in the order they were first added.
\<close>

fun collect_links :: "ip_parser \<Rightarrow> string \<Rightarrow> string list \<Rightarrow> string list \<Rightarrow> error + string list" where
  "collect_links ip url [] links = Inr links"
| "collect_links ip url (href # hrefs) links =
     (case clean_link ip url href of
        Inl e \<Rightarrow> Inl e
      | Inr None \<Rightarrow> collect_links ip url hrefs links
      | Inr (Some clean_url) \<Rightarrow>
          collect_links ip url hrefs
            (if clean_url \<in> set links then links else links @ [clean_url]))"

text \<open>
  \<^verbatim>\<open>_get_links_from_page\<close> of \<^verbatim>\<open>CrawlManager\<close>, made when \<open>n\<close> requests went before. A
  failed request is caught and gives the empty list, after one attempt.
\<close>

definition get_links_from_page :: "env \<Rightarrow> nat \<Rightarrow> string \<Rightarrow> error + string list" where
  "get_links_from_page e n url =
     (case requests_get e n url of
        RequestException \<Rightarrow> Inr []
      | Response hrefs \<Rightarrow>
          (case collect_links (ip_address e) url hrefs [] of
             Inl err \<Rightarrow> Inl err
           | Inr links \<Rightarrow> Inr (list_of_set e links)))"

text \<open>\<^verbatim>\<open>get_links_from_single_page\<close> of the two single-page scripts: the same body, one request.\<close>

definition get_links_from_single_page :: "env \<Rightarrow> string \<Rightarrow> error + string list" where
  "get_links_from_single_page e url = get_links_from_page e 0 url"

section \<open>Notions used in the proofs about URLs\<close>

text \<open>The checks \<^verbatim>\<open>urlsplit\<close> makes on a netloc with brackets, as one predicate.\<close>

definition netloc_ok :: "ip_parser \<Rightarrow> string \<Rightarrow> bool" where
  "netloc_ok ip nl =
     (if (CHR ''['' \<in> set nl \<and> CHR '']'' \<notin> set nl) \<or>
         (CHR '']'' \<in> set nl \<and> CHR ''['' \<notin> set nl) then False
      else if CHR ''['' \<in> set nl \<and> CHR '']'' \<in> set nl
           then check_bracketed_host ip (bracketed_host nl) = Inr ()
           else True)"

text \<open>
  A character that \<^verbatim>\<open>urlsplit\<close> leaves in a path: not removed as unsafe, and neither
  \<^verbatim>\<open>?\<close> nor \<^verbatim>\<open>#\<close>.
\<close>

definition path_char :: "char \<Rightarrow> bool" where
  "path_char c = (\<not> unsafe_url_byte c \<and> c \<noteq> CHR ''?'' \<and> c \<noteq> CHR ''#'')"

text \<open>
  The shape of a non-empty path that \<^verbatim>\<open>urlparse\<close> returns next to a netloc: it starts with
  a slash, holds path characters only, and has no semicolon after its last slash (the
  parameters were cut off there).
\<close>

definition slash_path :: "string \<Rightarrow> bool" where
  "slash_path P =
     (hd P = CHR ''/'' \<and> (\<forall>x\<in>set P. path_char x) \<and>
      (\<exists>pre suf. P = pre @ CHR ''/'' # suf \<and> CHR ''/'' \<notin> set suf \<and> CHR '';'' \<notin> set suf))"

text \<open>
  The path \<^verbatim>\<open>urljoin\<close> computes from the base path and the path of the reference, when the
  reference has no netloc and not both an empty path and empty parameters.
\<close>

definition resolve_path :: "string \<Rightarrow> string \<Rightarrow> string" where
  "resolve_path bpath upath =
     (let base_parts0 = str_split bpath (CHR ''/'');
          base_parts = (if last base_parts0 \<noteq> [] then butlast base_parts0 else base_parts0);
          segments = (if take 1 upath = ''/'' then str_split upath (CHR ''/'')
                      else drop_empty_inner (base_parts @ str_split upath (CHR ''/'')));
          resolved0 = resolve segments [];
          resolved_path = (if last segments = ''.'' \<or> last segments = ''..''
                           then resolved0 @ [[]] else resolved0);
          joined = str_join ''/'' resolved_path
      in if joined = [] then ''/'' else joined)"

text \<open>The path as \<^verbatim>\<open>urlunsplit\<close> writes it after a netloc: with a slash in front.\<close>

definition rooted :: "string \<Rightarrow> string" where
  "rooted X = (if take 1 X \<noteq> ''/'' then ''/'' @ X else X)"

section \<open>The crawl (deprecated/full\_network\_scraper.py)\<close>

text \<open>
  The fields of \<^verbatim>\<open>CrawlManager\<close> that the crawl reads and writes. \<open>website_links\<close> is the
  table behind \<^verbatim>\<open>self.conn\<close>; \<open>requests_made\<close> is not a field of the class: it logs the
  URLs passed to \<^verbatim>\<open>requests.get\<close>, in order.
\<close>

record CrawlManager =
  start_url :: string
  max_depth :: int
  visited_urls :: "string set"
  urls_to_visit :: "(string \<times> int) list"
  graph :: DiGraph
  website_links :: "row list"
  requests_made :: "string list"

text \<open>
  \<^verbatim>\<open>__init__\<close>, for a database that can be opened; \<open>table\<close> is what \<^verbatim>\<open>website_links\<close> holds
  already (\<^verbatim>\<open>CREATE TABLE IF NOT EXISTS\<close>; the main program deletes the file first).
\<close>

definition CrawlManager_init :: "string \<Rightarrow> int \<Rightarrow> row list \<Rightarrow> CrawlManager" where
  "CrawlManager_init start max_d table =
     \<lparr>start_url = start, max_depth = max_d, visited_urls = {},
      urls_to_visit = [(start, 0)], graph = DiGraph_empty,
      website_links = table, requests_made = []\<rparr>"

text \<open>The node set and the edge set of a graph.\<close>

definition graph_nodes :: "DiGraph \<Rightarrow> string set" where
  "graph_nodes g = fst ` set (nodes g)"

definition graph_edges :: "DiGraph \<Rightarrow> (string \<times> string) set" where
  "graph_edges g = set (edges g)"

text \<open>The body of \<^verbatim>\<open>for link in found_links\<close>.\<close>

definition visit_link :: "string \<Rightarrow> int \<Rightarrow> CrawlManager \<Rightarrow> string \<Rightarrow> CrawlManager" where
  "visit_link current_url current_depth s link =
     (let s1 = s\<lparr>graph := add_edge (graph s) current_url link\<rparr>
      in if link \<notin> visited_urls s1
         then s1\<lparr>urls_to_visit := urls_to_visit s1 @ [(link, current_depth + 1)]\<rparr>
         else s1)"

text \<open>
  One iteration of \<^verbatim>\<open>while self.urls_to_visit\<close>, for a queue that is not empty (the
  first case is never reached from the loop).
\<close>

definition crawl_iteration :: "env \<Rightarrow> CrawlManager \<Rightarrow> error + CrawlManager" where
  "crawl_iteration e s =
     (case urls_to_visit s of
        [] \<Rightarrow> Inr s
      | (current_url, current_depth) # rest \<Rightarrow>
          let s1 = s\<lparr>urls_to_visit := rest\<rparr>
          in if current_url \<in> visited_urls s1 \<or> current_depth > max_depth s1 then Inr s1
             else
               (let s2 = s1\<lparr>visited_urls := insert current_url (visited_urls s1),
                            graph := add_node (graph s1) current_url current_depth\<rparr>;
                    n = length (requests_made s2)
                in case get_links_from_page e n current_url of
                     Inl err \<Rightarrow> Inl err
                   | Inr found_links \<Rightarrow>
                       let s3 = s2\<lparr>requests_made := requests_made s2 @ [current_url]\<rparr>;
                           s4 = foldl (visit_link current_url current_depth) s3 found_links;
                           links_to_insert =
                             map (\<lambda>link. (current_url, link, Some current_depth)) found_links
                       in Inr (if links_to_insert \<noteq> [] \<and> executemany_ok e n
                               then s4\<lparr>website_links := website_links s4 @ links_to_insert\<rparr>
                               else s4)))"

text \<open>
  The state after the first \<open>k\<close> iterations of the loop (the final state, when the loop
  ends before).
\<close>

fun crawl_iterations :: "nat \<Rightarrow> env \<Rightarrow> CrawlManager \<Rightarrow> error + CrawlManager" where
  "crawl_iterations 0 e s = Inr s"
| "crawl_iterations (Suc k) e s =
     (if urls_to_visit s = [] then Inr s
      else (case crawl_iteration e s of
              Inl err \<Rightarrow> Inl err
            | Inr s' \<Rightarrow> crawl_iterations k e s'))"

text \<open>
  The loop ends: an entry of depth \<open>d\<close> weighs \<open>max_depth + 1 - d\<close> (0 when it is too
  deep); an iteration removes the first entry and adds entries that weigh less, only
  when the first entry weighs more than 0.
\<close>

definition queue_weights :: "CrawlManager \<Rightarrow> nat multiset" where
  "queue_weights s = mset (map (\<lambda>p. nat (max_depth s + 1 - snd p)) (urls_to_visit s))"

lemma foldl_visit_link:
  "foldl (visit_link u d) s links =
     s\<lparr>graph := foldl (\<lambda>g l. add_edge g u l) (graph s) links,
       urls_to_visit := urls_to_visit s @
          map (\<lambda>l. (l, d + 1)) (filter (\<lambda>l. l \<notin> visited_urls s) links)\<rparr>"
  by (induction links arbitrary: s) (simp_all add: visit_link_def Let_def)

lemma crawl_iteration_cases:
  assumes "urls_to_visit s = (u, d) # rest"
      and "crawl_iteration e s = Inr s'"
  shows "(u \<in> visited_urls s \<or> max_depth s < d) \<and> s' = s\<lparr>urls_to_visit := rest\<rparr> \<or>
         u \<notin> visited_urls s \<and> d \<le> max_depth s \<and>
         (\<exists>links. get_links_from_page e (length (requests_made s)) u = Inr links \<and>
            max_depth s' = max_depth s \<and>
            start_url s' = start_url s \<and>
            visited_urls s' = insert u (visited_urls s) \<and>
            requests_made s' = requests_made s @ [u] \<and>
            urls_to_visit s' =
              rest @ map (\<lambda>l. (l, d + 1)) (filter (\<lambda>l. l \<noteq> u \<and> l \<notin> visited_urls s) links) \<and>
            graph s' = foldl (\<lambda>g l. add_edge g u l) (add_node (graph s) u d) links \<and>
            website_links s' =
              website_links s @
                (if executemany_ok e (length (requests_made s))
                 then map (\<lambda>l. (u, l, Some d)) links else []))"
  using assms
  by (auto simp: crawl_iteration_def Let_def foldl_visit_link split: if_splits sum.splits)

lemma crawl_iteration_decreases:
  assumes "urls_to_visit s \<noteq> []" and "crawl_iteration e s = Inr s'"
  shows "queue_weights s' < queue_weights s"
proof -
  obtain u d rest where q: "urls_to_visit s = (u, d) # rest"
    using assms(1) by (cases "urls_to_visit s") auto
  let ?w = "\<lambda>p :: string \<times> int. nat (max_depth s + 1 - snd p)"
  have old: "queue_weights s = mset (map ?w rest) + {#nat (max_depth s + 1 - d)#}"
    by (simp add: queue_weights_def q)
  from crawl_iteration_cases [OF q assms(2)]
  consider (skip) "s' = s\<lparr>urls_to_visit := rest\<rparr>"
    | (visit) links where "d \<le> max_depth s" and "max_depth s' = max_depth s"
        and "urls_to_visit s' =
               rest @ map (\<lambda>l. (l, d + 1)) (filter (\<lambda>l. l \<noteq> u \<and> l \<notin> visited_urls s) links)"
    by blast
  then show ?thesis
  proof cases
    case skip
    then have "queue_weights s' = mset (map ?w rest)"
      by (simp add: queue_weights_def)
    moreover have "(mset (map ?w rest) + {#}, mset (map ?w rest) + {#nat (max_depth s + 1 - d)#})
                     \<in> mult {(x, y). x < y}"
      by (intro one_step_implies_mult) auto
    ultimately show ?thesis
      by (simp add: old less_multiset_def multp_def)
  next
    case visit
    let ?new = "mset (map ?w (map (\<lambda>l. (l, d + 1))
                  (filter (\<lambda>l. l \<noteq> u \<and> l \<notin> visited_urls s) links)))"
    have new: "queue_weights s' = mset (map ?w rest) + ?new"
      by (simp add: queue_weights_def visit)
    have "\<forall>k\<in>set_mset ?new. \<exists>j\<in>set_mset {#nat (max_depth s + 1 - d)#}. k < j"
      using visit(1) by auto
    then have "(mset (map ?w rest) + ?new, mset (map ?w rest) + {#nat (max_depth s + 1 - d)#})
                 \<in> mult {(x, y). x < y}"
      by (intro one_step_implies_mult) auto
    then show ?thesis
      by (simp add: old new less_multiset_def multp_def)
  qed
qed

text \<open>\<^verbatim>\<open>crawl\<close>: the loop, from any state of the manager.\<close>

function crawl :: "env \<Rightarrow> CrawlManager \<Rightarrow> error + CrawlManager" where
  "crawl e s =
     (if urls_to_visit s = [] then Inr s
      else (case crawl_iteration e s of
              Inl err \<Rightarrow> Inl err
            | Inr s' \<Rightarrow> crawl e s'))"
  by pat_completeness auto
termination
proof (relation "inv_image {(M, N). M < N} (\<lambda>(e, s). queue_weights s)")
  show "wf (inv_image {(M, N). M < N} (\<lambda>(e, s). queue_weights s))"
    using wfp_less_multiset [where ?'a = nat] by (simp add: wfp_def)
next
  fix e s x2
  assume "urls_to_visit s \<noteq> []" and "crawl_iteration e s = Inr x2"
  then show "((e, x2), (e, s)) \<in> inv_image {(M, N). M < N} (\<lambda>(e, s). queue_weights s)"
    by (simp add: crawl_iteration_decreases)
qed

declare crawl.simps [simp del]

subsection \<open>The rows a crawl inserts\<close>

text \<open>
  What holds of visited set \<open>V\<close>, queue \<open>q\<close> and table \<open>rows\<close> throughout a crawl from
  \<open>start\<close> with depth limit \<open>M\<close> that starts on an empty table, whether its inserts
  succeed or not. The queue is in non-decreasing depth order and spans at most two depths.
\<close>

definition queue_ordered :: "(string \<times> int) list \<Rightarrow> bool" where
  "queue_ordered q =
     (sorted (map snd q) \<and> (\<forall>p\<in>set q. 0 \<le> snd p) \<and>
      (\<forall>p\<in>set q. \<forall>p'\<in>set q. snd p' \<le> snd p + 1))"

text \<open>The rows are in non-decreasing depth order, none deeper than a queue entry.\<close>

definition rows_ordered :: "(string \<times> int) list \<Rightarrow> row list \<Rightarrow> bool" where
  "rows_ordered q rows =
     (sorted (map row_depth rows) \<and> (\<forall>r\<in>set rows. 0 \<le> row_depth r) \<and>
      (\<forall>r\<in>set rows. \<forall>p\<in>set q. row_depth r \<le> snd p))"

text \<open>
  The start URL is the first one crawled: before, the table is empty; its rows have depth
  0.
\<close>

definition start_first ::
  "string \<Rightarrow> string set \<Rightarrow> (string \<times> int) list \<Rightarrow> row list \<Rightarrow> bool" where
  "start_first start V q rows =
     ((start \<in> V \<or> rows = [] \<and> (q = [(start, 0)] \<or> q = [])) \<and>
      (\<forall>r\<in>set rows. fst r = start \<longrightarrow> row_depth r = 0))"

text \<open>
  An unvisited URL other than the start URL is queued no deeper than the depth the rows
  assemble to for it (the depth of the first row that mentions it), unless that depth is
  beyond the limit; and when the rows mention it and it is not queued, that depth is
  beyond the limit.
\<close>

definition queued_at_first_mention ::
  "string \<Rightarrow> int \<Rightarrow> string set \<Rightarrow> (string \<times> int) list \<Rightarrow> row list \<Rightarrow> bool" where
  "queued_at_first_mention start M V q rows =
     ((\<forall>n k f. n \<notin> V \<longrightarrow> n \<noteq> start \<longrightarrow> map_of q n = Some k \<longrightarrow>
         depth_of (populate rows) n = Some f \<longrightarrow> k \<le> f \<or> M < f) \<and>
      (\<forall>n f. n \<notin> V \<longrightarrow> n \<noteq> start \<longrightarrow> n \<notin> fst ` set q \<longrightarrow>
         depth_of (populate rows) n = Some f \<longrightarrow> M < f))"

text \<open>
  The depth of a row is at most the depth the rows assemble to for its source, the start
  URL apart.
\<close>

definition sources_consistent :: "string \<Rightarrow> row list \<Rightarrow> bool" where
  "sources_consistent start rows =
     (\<forall>r\<in>set rows. fst r \<noteq> start \<longrightarrow>
        (\<exists>f. depth_of (populate rows) (fst r) = Some f \<and> row_depth r \<le> f))"

definition bfs_inv ::
  "string \<Rightarrow> int \<Rightarrow> string set \<Rightarrow> (string \<times> int) list \<Rightarrow> row list \<Rightarrow> bool" where
  "bfs_inv start M V q rows =
     (queue_ordered q \<and> rows_ordered q rows \<and> start_first start V q rows \<and>
      queued_at_first_mention start M V q rows \<and> sources_consistent start rows)"

section \<open>Examples\<close>

text \<open>
  An \<^verbatim>\<open>ipaddress\<close> that accepts no bracketed host (none occurs in the examples).
\<close>

definition no_ip :: ip_parser where
  "no_ip host = None"

subsection \<open>Example sites\<close>

text \<open>
  Sets enumerated in insertion order, inserts that succeed, and \<open>no_ip\<close>: the parts of the
  environment the examples below do not vary.
\<close>

definition site :: "(nat \<Rightarrow> string \<Rightarrow> response) \<Rightarrow> env" where
  "site pages =
     \<lparr>requests_get = pages, list_of_set = (\<lambda>links. links),
      executemany_ok = (\<lambda>n. True), ip_address = no_ip\<rparr>"

text \<open>
  The site of the specification's example: page \<^verbatim>\<open>a\<close> links to \<^verbatim>\<open>b\<close> and \<^verbatim>\<open>c\<close>, page
  \<^verbatim>\<open>b\<close> links to \<^verbatim>\<open>d\<close>, the other pages have no links.
\<close>

definition abcd_pages :: "nat \<Rightarrow> string \<Rightarrow> response" where
  "abcd_pages n url =
     (if url = ''http://example.com/a'' then Response [''b'', ''c'']
      else if url = ''http://example.com/b'' then Response [''d'']
      else Response [])"

text \<open>A site where page \<^verbatim>\<open>c\<close> is linked from \<^verbatim>\<open>a\<close> and from \<^verbatim>\<open>b\<close>.\<close>

definition shared_pages :: "nat \<Rightarrow> string \<Rightarrow> response" where
  "shared_pages n url =
     (if url = ''http://example.com/a'' then Response [''b'', ''c'']
      else if url = ''http://example.com/b'' then Response [''c'']
      else Response [])"

text \<open>
  A server whose first request fails (a timeout, say) and whose later requests would all
  succeed, each page linking to \<^verbatim>\<open>/next\<close>.
\<close>

definition flaky_pages :: "nat \<Rightarrow> string \<Rightarrow> response" where
  "flaky_pages n url = (if n = 0 then RequestException else Response [''/next''])"

text \<open>The site \<open>abcd_pages\<close> with page \<^verbatim>\<open>b\<close> unreachable and page \<^verbatim>\<open>c\<close> linking to \<^verbatim>\<open>d\<close>.\<close>

definition broken_b_pages :: "nat \<Rightarrow> string \<Rightarrow> response" where
  "broken_b_pages n url =
     (if url = ''http://example.com/a'' then Response [''b'', ''c'']
      else if url = ''http://example.com/b'' then RequestException
      else if url = ''http://example.com/c'' then Response [''d'']
      else Response [])"


text \<open>The crawl of \<open>abcd_pages\<close> from \<^verbatim>\<open>a\<close> with \<^verbatim>\<open>max_depth = 1\<close>, when the loop has ended.\<close>

definition abcd_final :: CrawlManager where
  "abcd_final =
     \<lparr>start_url = ''http://example.com/a'', max_depth = 1,
      visited_urls = {''http://example.com/a'', ''http://example.com/b'', ''http://example.com/c''},
      urls_to_visit = [],
      graph =
        \<lparr>nodes = [(''http://example.com/a'', Some 0),
                  (''http://example.com/b'', Some 1),
                  (''http://example.com/c'', Some 1),
                  (''http://example.com/d'', None)],
         edges = [(''http://example.com/a'', ''http://example.com/b''),
                  (''http://example.com/a'', ''http://example.com/c''),
                  (''http://example.com/b'', ''http://example.com/d'')]\<rparr>,
      website_links = [(''http://example.com/a'', ''http://example.com/b'', Some 0),
                       (''http://example.com/a'', ''http://example.com/c'', Some 0),
                       (''http://example.com/b'', ''http://example.com/d'', Some 1)],
      requests_made = [''http://example.com/a'', ''http://example.com/b'', ''http://example.com/c'']\<rparr>"

text \<open>A crawl from \<^verbatim>\<open>a\<close> with \<^verbatim>\<open>max_depth = 2\<close> after its first iteration, on each of the sites above but \<open>flaky_pages\<close>.\<close>

definition after_page_a :: CrawlManager where
  "after_page_a =
     \<lparr>start_url = ''http://example.com/a'', max_depth = 2,
      visited_urls = {''http://example.com/a''},
      urls_to_visit = [(''http://example.com/b'', 1), (''http://example.com/c'', 1)],
      graph =
        \<lparr>nodes = [(''http://example.com/a'', Some 0),
                  (''http://example.com/b'', None),
                  (''http://example.com/c'', None)],
         edges = [(''http://example.com/a'', ''http://example.com/b''),
                  (''http://example.com/a'', ''http://example.com/c'')]\<rparr>,
      website_links = [(''http://example.com/a'', ''http://example.com/b'', Some 0),
                       (''http://example.com/a'', ''http://example.com/c'', Some 0)],
      requests_made = [''http://example.com/a'']\<rparr>"

text \<open>The crawl of \<open>shared_pages\<close> after two and after three iterations.\<close>

definition shared_after_b :: CrawlManager where
  "shared_after_b =
     \<lparr>start_url = ''http://example.com/a'', max_depth = 2,
      visited_urls = {''http://example.com/a'', ''http://example.com/b''},
      urls_to_visit = [(''http://example.com/c'', 1), (''http://example.com/c'', 2)],
      graph =
        \<lparr>nodes = [(''http://example.com/a'', Some 0),
                  (''http://example.com/b'', Some 1),
                  (''http://example.com/c'', None)],
         edges = [(''http://example.com/a'', ''http://example.com/b''),
                  (''http://example.com/a'', ''http://example.com/c''),
                  (''http://example.com/b'', ''http://example.com/c'')]\<rparr>,
      website_links = [(''http://example.com/a'', ''http://example.com/b'', Some 0),
                       (''http://example.com/a'', ''http://example.com/c'', Some 0),
                       (''http://example.com/b'', ''http://example.com/c'', Some 1)],
      requests_made = [''http://example.com/a'', ''http://example.com/b'']\<rparr>"

definition shared_after_c :: CrawlManager where
  "shared_after_c =
     \<lparr>start_url = ''http://example.com/a'', max_depth = 2,
      visited_urls = {''http://example.com/a'', ''http://example.com/b'', ''http://example.com/c''},
      urls_to_visit = [(''http://example.com/c'', 2)],
      graph =
        \<lparr>nodes = [(''http://example.com/a'', Some 0),
                  (''http://example.com/b'', Some 1),
                  (''http://example.com/c'', Some 1)],
         edges = [(''http://example.com/a'', ''http://example.com/b''),
                  (''http://example.com/a'', ''http://example.com/c''),
                  (''http://example.com/b'', ''http://example.com/c'')]\<rparr>,
      website_links = [(''http://example.com/a'', ''http://example.com/b'', Some 0),
                       (''http://example.com/a'', ''http://example.com/c'', Some 0),
                       (''http://example.com/b'', ''http://example.com/c'', Some 1)],
      requests_made = [''http://example.com/a'', ''http://example.com/b'', ''http://example.com/c'']\<rparr>"

text \<open>The crawl of \<open>broken_b_pages\<close>, when the loop has ended.\<close>

definition broken_b_final :: CrawlManager where
  "broken_b_final =
     \<lparr>start_url = ''http://example.com/a'', max_depth = 2,
      visited_urls = {''http://example.com/a'', ''http://example.com/b'', ''http://example.com/c'', ''http://example.com/d''},
      urls_to_visit = [],
      graph =
        \<lparr>nodes = [(''http://example.com/a'', Some 0),
                  (''http://example.com/b'', Some 1),
                  (''http://example.com/c'', Some 1),
                  (''http://example.com/d'', Some 2)],
         edges = [(''http://example.com/a'', ''http://example.com/b''),
                  (''http://example.com/a'', ''http://example.com/c''),
                  (''http://example.com/c'', ''http://example.com/d'')]\<rparr>,
      website_links = [(''http://example.com/a'', ''http://example.com/b'', Some 0),
                       (''http://example.com/a'', ''http://example.com/c'', Some 0),
                       (''http://example.com/c'', ''http://example.com/d'', Some 1)],
      requests_made = [''http://example.com/a'', ''http://example.com/b'', ''http://example.com/c'', ''http://example.com/d'']\<rparr>"

text \<open>The crawl of \<open>flaky_pages\<close> from \<^verbatim>\<open>a\<close> with \<^verbatim>\<open>max_depth = 2\<close>, when the loop has ended.\<close>

definition flaky_final :: CrawlManager where
  "flaky_final =
     \<lparr>start_url = ''http://example.com/a'', max_depth = 2,
      visited_urls = {''http://example.com/a''},
      urls_to_visit = [],
      graph = \<lparr>nodes = [(''http://example.com/a'', Some 0)], edges = []\<rparr>,
      website_links = [],
      requests_made = [''http://example.com/a'']\<rparr>"

section \<open>Properties of the graph assembly\<close>

lemma map_of_dict_set: "map_of (dict_set kvs k v) = (map_of kvs)(k \<mapsto> v)"
  by (induction kvs k v rule: dict_set.induct) auto

lemma keys_dict_set: "fst ` set (dict_set kvs k v) = insert k (fst ` set kvs)"
  by (induction kvs k v rule: dict_set.induct) auto

lemma has_node_add_node: "has_node (add_node g n d) m = (m = n \<or> has_node g m)"
  by (auto simp: has_node_def add_node_def keys_dict_set)

lemma depth_of_add_node: "depth_of (add_node g n d) m = (if m = n then Some d else depth_of g m)"
  by (simp add: depth_of_def add_node_def map_of_dict_set)

lemma edges_add_node: "edges (add_node g n d) = edges g"
  by (simp add: add_node_def)

lemma touch_node_present: "has_node g n \<Longrightarrow> touch_node g n = g"
  by (simp add: touch_node_def)

lemma add_edge_present:
  assumes "has_node g u" "has_node g v"
  shows "nodes (add_edge g u v) = nodes g"
    and "set (edges (add_edge g u v)) = insert (u, v) (set (edges g))"
  using assms by (auto simp: add_edge_def touch_node_present Let_def)

lemma add_row_endpoints: "add_row g (s, t, c) = add_edge (with_endpoints g (s, t, c)) s t"
  by (simp add: add_row_def with_endpoints_def row_depth_def Let_def)

lemma has_node_with_endpoints:
  "has_node (with_endpoints g (s, t, c)) n = (n = s \<or> n = t \<or> has_node g n)"
  by (auto simp: with_endpoints_def Let_def has_node_add_node)

lemma has_node_nodes_cong: "nodes g = nodes g' \<Longrightarrow> has_node g n = has_node g' n"
  by (simp add: has_node_def)

lemma depth_of_nodes_cong: "nodes g = nodes g' \<Longrightarrow> depth_of g n = depth_of g' n"
  by (simp add: depth_of_def)

lemma nodes_add_row: "nodes (add_row g (s, t, c)) = nodes (with_endpoints g (s, t, c))"
  by (simp add: add_row_endpoints add_edge_present has_node_with_endpoints)

lemma edges_add_row:
  "set (edges (add_row g (s, t, c))) = insert (s, t) (set (edges g))"
  by (simp add: add_row_endpoints add_edge_present has_node_with_endpoints)
     (simp add: with_endpoints_def Let_def edges_add_node)

lemma has_node_add_row:
  "has_node (add_row g (s, t, c)) n = (n = s \<or> n = t \<or> has_node g n)"
  using has_node_nodes_cong [OF nodes_add_row] has_node_with_endpoints by simp

lemma depth_of_add_row_old:
  "has_node g n \<Longrightarrow> depth_of (add_row g (s, t, c)) n = depth_of g n"
  unfolding depth_of_nodes_cong [OF nodes_add_row]
  by (auto simp: with_endpoints_def Let_def depth_of_add_node has_node_add_node)

lemma depth_of_add_row_new:
  "\<not> has_node g n \<Longrightarrow> n = s \<or> n = t \<Longrightarrow>
   depth_of (add_row g (s, t, c)) n =
     Some (if n = s then row_depth (s, t, c) else row_depth (s, t, c) + 1)"
  unfolding depth_of_nodes_cong [OF nodes_add_row]
  by (auto simp: with_endpoints_def Let_def depth_of_add_node has_node_add_node)


lemma has_node_foldl:
  "has_node (foldl add_row g data) n = (has_node g n \<or> (\<exists>r\<in>set data. mentions r n))"
proof (induction data arbitrary: g)
  case Nil
  show ?case by simp
next
  case (Cons r data)
  obtain s t c where r: "r = (s, t, c)" by (cases r)
  show ?case
    unfolding foldl_Cons Cons.IH r
    by (auto simp: has_node_add_row mentions_def)
qed

lemma edges_foldl:
  "set (edges (foldl add_row g data)) = set (edges g) \<union> (\<lambda>r. (fst r, fst (snd r))) ` set data"
proof (induction data arbitrary: g)
  case Nil
  show ?case by simp
next
  case (Cons r data)
  obtain s t c where r: "r = (s, t, c)" by (cases r)
  show ?case
    unfolding foldl_Cons Cons.IH r
    by (auto simp: edges_add_row)
qed

lemma depth_of_foldl_old:
  "has_node g n \<Longrightarrow> depth_of (foldl add_row g data) n = depth_of g n"
proof (induction data arbitrary: g)
  case Nil
  show ?case by simp
next
  case (Cons r data)
  obtain s t c where r: "r = (s, t, c)" by (cases r)
  have "has_node (add_row g r) n"
    using Cons.prems by (simp add: r has_node_add_row)
  then show ?case
    using Cons.IH [of "add_row g r"] Cons.prems
    by (simp add: r depth_of_add_row_old)
qed

lemma first_mention_bound:
  assumes "sorted (map row_depth data)"
      and "\<not> has_node g n"
      and "\<exists>r\<in>set data. mentions r n"
  shows "\<exists>k. depth_of (foldl add_row g data) n = Some k \<and>
             (\<forall>r\<in>set data. mentions r n \<longrightarrow> k \<le> row_depth r + 1)"
  using assms
proof (induction data arbitrary: g)
  case Nil
  then show ?case by simp
next
  case (Cons r data)
  obtain s t c where r: "r = (s, t, c)" by (cases r)
  show ?case
  proof (cases "mentions r n")
    case True
    then have st: "n = s \<or> n = t" by (auto simp: r mentions_def)
    define k where "k = (if n = s then row_depth r else row_depth r + 1)"
    have new: "depth_of (add_row g r) n = Some k"
      using depth_of_add_row_new [OF Cons.prems(2) st] by (simp add: r k_def)
    have "has_node (add_row g r) n"
      using st by (auto simp: r has_node_add_row)
    then have final: "depth_of (foldl add_row g (r # data)) n = Some k"
      using new by (simp add: depth_of_foldl_old)
    have "k \<le> row_depth r + 1" by (simp add: k_def)
    moreover have "\<forall>r'\<in>set data. row_depth r \<le> row_depth r'"
      using Cons.prems(1) by simp
    ultimately have "\<forall>r'\<in>set (r # data). k \<le> row_depth r' + 1"
      by fastforce
    with final show ?thesis by blast
  next
    case False
    then have absent: "\<not> has_node (add_row g r) n"
      using Cons.prems(2) by (auto simp: r has_node_add_row mentions_def)
    have later: "\<exists>r'\<in>set data. mentions r' n"
      using Cons.prems(3) False by auto
    have "sorted (map row_depth data)"
      using Cons.prems(1) by simp
    from Cons.IH [OF this absent later] False show ?thesis
      by auto
  qed
qed

lemma has_node_build_graph: "has_node (build_graph data start) n = has_node (populate data) n"
  by (auto simp: build_graph_def Let_def has_node_add_node)

lemma edges_build_graph: "edges (build_graph data start) = edges (populate data)"
  by (simp add: build_graph_def Let_def edges_add_node)

lemma depth_of_build_graph:
  "depth_of (build_graph data start) n =
     (if n = start \<and> has_node (populate data) start then Some 0 else depth_of (populate data) n)"
  by (simp add: build_graph_def Let_def depth_of_add_node)

lemma has_node_empty: "\<not> has_node DiGraph_empty n"
  by (simp add: has_node_def DiGraph_empty_def)

lemma has_node_populate: "has_node (populate data) n = (\<exists>r\<in>set data. mentions r n)"
  by (simp add: populate_def has_node_foldl has_node_empty)

lemma ordered_rows_depth_step:
  assumes ordered: "sorted (map row_depth data)"
      and nonneg: "\<forall>r\<in>set data. 0 \<le> row_depth r"
      and consistent:
        "\<forall>r\<in>set data. \<exists>ds. depth_of (build_graph data start) (fst r) = Some ds \<and>
                              row_depth r \<le> ds"
  shows "depth_step_ok (build_graph data start)"
  unfolding depth_step_ok_def
proof
  fix e assume "e \<in> set (edges (build_graph data start))"
  then obtain r where r: "r \<in> set data" and e: "e = (fst r, fst (snd r))"
    by (auto simp: edges_build_graph populate_def edges_foldl DiGraph_empty_def)
  from consistent r e obtain ds
    where src: "depth_of (build_graph data start) (fst e) = Some ds" and ds: "row_depth r \<le> ds"
    by auto
  have m: "mentions r (snd e)"
    by (cases r) (simp add: e mentions_def)
  then have "\<exists>r\<in>set data. mentions r (snd e)" using r by blast
  from first_mention_bound [OF ordered has_node_empty this]
  obtain k where k: "depth_of (populate data) (snd e) = Some k"
    and le: "k \<le> row_depth r + 1"
    using r m by (auto simp: populate_def)
  have "0 \<le> row_depth r" using nonneg r by blast
  then have "\<exists>dt. depth_of (build_graph data start) (snd e) = Some dt \<and> dt \<le> row_depth r + 1"
    using k le by (simp add: depth_of_build_graph)
  with src ds show "case (depth_of (build_graph data start) (fst e),
                       depth_of (build_graph data start) (snd e)) of
                   (Some ds, Some dt) \<Rightarrow> dt \<le> ds + 1 | _ \<Rightarrow> False"
    by auto
qed

lemma start_depth_zero:
  "has_node (build_graph data start) start \<Longrightarrow> depth_of (build_graph data start) start = Some 0"
  by (simp add: depth_of_build_graph has_node_build_graph)

lemmas assembler_eval =
  build_graph_def populate_def add_row_def add_node_def add_edge_def touch_node_def
  has_node_def depth_of_def DiGraph_empty_def row_depth_def Let_def

text \<open>
  C1: the code at rows of which a deeper one comes before a shallower one. Node
  \<^verbatim>\<open>http://e.com/b\<close> is a target at depths 2 and 1; the assembled graph keeps 2, the depth
  of the first row that mentions it, where the minimum is 1.
\<close>

theorem first_row_wins_not_minimum:
  "depth_of (build_graph rows_reordered ''http://e.com/'') ''http://e.com/b'' = Some 2 \<and>
   spec_min_depth rows_reordered ''http://e.com/'' ''http://e.com/b'' = Some 1"
  by (simp add: rows_reordered_def spec_min_depth_def target_observations_def assembler_eval)

text \<open>
  C7: the code at rows of which a deeper one comes before a shallower one, assembled for
  the start URL of their crawl. The start node \<^verbatim>\<open>http://e.com/\<close> has depth 0 and its edge
  to \<^verbatim>\<open>http://e.com/b\<close> leads to a node of depth 2, the depth of the first row that
  mentions \<^verbatim>\<open>/b\<close>: the update to the shallower depth 1, which the row of that edge asks
  for, is the branch that never runs.
\<close>

theorem start_edge_skips_a_depth:
  "(''http://e.com/'', ''http://e.com/b'') \<in> set (edges (build_graph rows_reordered ''http://e.com/'')) \<and>
   depth_of (build_graph rows_reordered ''http://e.com/'') ''http://e.com/'' = Some 0 \<and>
   depth_of (build_graph rows_reordered ''http://e.com/'') ''http://e.com/b'' = Some 2"
  by (simp add: rows_reordered_def assembler_eval)

section \<open>Properties of URL parsing and joining\<close>

subsection \<open>Strings\<close>

lemma find_None_iff: "find s c = None \<longleftrightarrow> c \<notin> set s"
  by (induction s) auto

lemma find_append_first: "c \<notin> set xs \<Longrightarrow> find (xs @ c # ys) c = Some (length xs)"
  by (induction xs) auto

lemma find_Some_take: "find s c = Some k \<Longrightarrow> c \<notin> set (take k s) \<and> k < length s"
proof (induction s arbitrary: k)
  case Nil
  then show ?case by simp
next
  case (Cons x s)
  then show ?case by (cases k) (auto split: if_splits)
qed

lemma str_split_not_Nil: "str_split s c \<noteq> []"
  by (induction s) (auto split: list.splits)

lemma str_split_free: "w \<in> set (str_split s c) \<Longrightarrow> c \<notin> set w \<and> set w \<subseteq> set s"
proof (induction s arbitrary: w)
  case Nil
  then show ?case by simp
next
  case (Cons x s)
  show ?case
  proof (cases "x = c")
    case True
    with Cons show ?thesis by auto
  next
    case False
    obtain v vs where split: "str_split s c = v # vs"
      using str_split_not_Nil [of s c] by (cases "str_split s c") auto
    with False Cons.prems have "w = x # v \<or> w \<in> set vs" by simp
    then show ?thesis
    proof
      assume "w = x # v"
      moreover have "c \<notin> set v \<and> set v \<subseteq> set s"
        using Cons.IH [of v] split by simp
      ultimately show ?thesis using False by auto
    next
      assume "w \<in> set vs"
      then have "c \<notin> set w \<and> set w \<subseteq> set s"
        using Cons.IH [of w] split by simp
      then show ?thesis by auto
    qed
  qed
qed

lemma set_str_join: "set (str_join sep ws) \<subseteq> set sep \<union> \<Union> (set ` set ws)"
  by (induction sep ws rule: str_join.induct) auto

lemma str_split_plain: "c \<notin> set w \<Longrightarrow> str_split w c = [w]"
  by (induction w) auto

lemma str_split_append:
  "c \<notin> set w \<Longrightarrow> str_split (w @ c # s) c = w # str_split s c"
  by (induction w) auto

lemma str_split_join:
  "ws \<noteq> [] \<Longrightarrow> \<forall>w\<in>set ws. c \<notin> set w \<Longrightarrow> str_split (str_join [c] ws) c = ws"
proof (induction "[c]" ws rule: str_join.induct)
  case 1
  then show ?case by simp
next
  case (2 x)
  then show ?case by (simp add: str_split_plain)
next
  case (3 x y ys)
  then show ?case by (simp add: str_split_append)
qed

lemma resolve_snoc:
  "resolve (segs @ [z]) acc =
     (if z = ''..'' then butlast (resolve segs acc)
      else if z = ''.'' then resolve segs acc
      else resolve segs acc @ [z])"
  by (induction segs arbitrary: acc) auto

lemma resolve_subset: "set (resolve segs acc) \<subseteq> set segs \<union> set acc"
proof (induction segs arbitrary: acc)
  case Nil
  show ?case by simp
next
  case (Cons seg segs)
  have "set (butlast acc) \<subseteq> set acc"
    by (auto dest: in_set_butlastD)
  with Cons.IH [of "butlast acc"] Cons.IH [of acc] Cons.IH [of "acc @ [seg]"]
  show ?case by auto
qed

lemma resolve_up: "resolve (''..'' # segs) acc = resolve segs (butlast acc)"
  by simp

lemma resolve_stay: "resolve (''.'' # segs) acc = resolve segs acc"
  by simp

lemma resolve_down:
  "seg \<noteq> ''..'' \<Longrightarrow> seg \<noteq> ''.'' \<Longrightarrow> resolve (seg # segs) acc = resolve segs (acc @ [seg])"
  by simp

lemma resolve_no_dots:
  "\<forall>x\<in>set acc. x \<noteq> ''.'' \<and> x \<noteq> ''..'' \<Longrightarrow>
   \<forall>x\<in>set (resolve segs acc). x \<noteq> ''.'' \<and> x \<noteq> ''..''"
proof (induction segs arbitrary: acc)
  case Nil
  then show ?case by simp
next
  case (Cons seg segs)
  consider (up) "seg = ''..''" | (stay) "seg = ''.''"
    | (down) "seg \<noteq> ''..''" "seg \<noteq> ''.''"
    by blast
  then show ?case
  proof cases
    case up
    have "\<forall>x\<in>set (butlast acc). x \<noteq> ''.'' \<and> x \<noteq> ''..''"
      using Cons.prems by (blast dest: in_set_butlastD)
    from Cons.IH [OF this] show ?thesis
      unfolding up resolve_up .
  next
    case stay
    from Cons.IH [OF Cons.prems] show ?thesis
      unfolding stay resolve_stay .
  next
    case down
    have "\<forall>x\<in>set (acc @ [seg]). x \<noteq> ''.'' \<and> x \<noteq> ''..''"
      using Cons.prems down by (simp only: set_append ball_Un) simp
    from Cons.IH [OF this] show ?thesis
      unfolding resolve_down [OF down] .
  qed
qed

lemma resolve_plain:
  "\<forall>x\<in>set segs. x \<noteq> ''.'' \<and> x \<noteq> ''..'' \<Longrightarrow> resolve segs acc = acc @ segs"
proof (induction segs arbitrary: acc)
  case Nil
  show ?case by simp
next
  case (Cons seg segs)
  from Cons.prems have seg: "seg \<noteq> ''..''" "seg \<noteq> ''.''"
    and rest: "\<forall>x\<in>set segs. x \<noteq> ''.'' \<and> x \<noteq> ''..''"
    by simp_all
  from Cons.IH [OF rest, of "acc @ [seg]"] show ?case
    unfolding resolve_down [OF seg] by simp
qed

lemma count_str_split: "length (str_split s c) = Suc (count_list s c)"
proof (induction s)
  case Nil
  show ?case by simp
next
  case (Cons x s)
  obtain v vs where "str_split s c = v # vs"
    using str_split_not_Nil [of s c] by (cases "str_split s c") auto
  with Cons show ?case by auto
qed

lemma last_str_split: "c \<notin> set suf \<Longrightarrow> last (str_split (pre @ c # suf) c) = suf"
proof (induction pre)
  case Nil
  then show ?case by (simp add: str_split_plain)
next
  case (Cons x pre)
  have "length (str_split (pre @ c # suf) c) \<ge> 2"
    by (simp add: count_str_split)
  then obtain v v' vs where "str_split (pre @ c # suf) c = v # v' # vs"
    by (cases "str_split (pre @ c # suf) c" rule: list.exhaust)
       (auto simp: Suc_le_eq neq_Nil_conv)
  with Cons show ?case by auto
qed

lemma str_join_snoc: "ws \<noteq> [] \<Longrightarrow> str_join sep (ws @ [z]) = str_join sep ws @ sep @ z"
  by (induction sep ws rule: str_join.induct) auto

subsection \<open>The pieces of urlsplit\<close>

lemma path_split_rest:
  "path (split_rest sch nl url) =
     takeWhile (\<lambda>x. x \<noteq> CHR ''?'') (takeWhile (\<lambda>x. x \<noteq> CHR ''#'') url)"
proof -
  have hash: "CHR ''#'' \<notin> set url \<Longrightarrow> takeWhile (\<lambda>x. x \<noteq> CHR ''#'') url = url"
    by (auto simp: takeWhile_eq_all_conv)
  have quest: "\<And>w. CHR ''?'' \<notin> set w \<Longrightarrow> takeWhile (\<lambda>x. x \<noteq> CHR ''?'') w = w"
    by (auto simp: takeWhile_eq_all_conv)
  show ?thesis
    by (cases "CHR ''#'' \<in> set url";
        cases "CHR ''?'' \<in> set (takeWhile (\<lambda>x. x \<noteq> CHR ''#'') url)")
       (simp_all add: split_rest_def split_once_def hash quest)
qed

lemma scheme_split_rest [simp]: "scheme (split_rest sch nl url) = sch"
  by (simp add: split_rest_def case_prod_beta Let_def)

lemma netloc_split_rest [simp]: "netloc (split_rest sch nl url) = nl"
  by (simp add: split_rest_def case_prod_beta Let_def)

lemma split_rest_plain:
  "CHR ''#'' \<notin> set url \<Longrightarrow> CHR ''?'' \<notin> set url \<Longrightarrow>
   split_rest sch nl url = \<lparr>scheme = sch, netloc = nl, path = url, query = [], fragment = []\<rparr>"
  by (simp add: split_rest_def)

lemma split_rest_query_free:
  "CHR ''?'' \<notin> set url \<Longrightarrow> query (split_rest sch nl url) = [] \<and>
     CHR ''?'' \<notin> set (fragment (split_rest sch nl url))"
  by (auto simp: split_rest_def split_once_def dest: set_takeWhileD in_set_dropD set_dropWhileD)

lemma split_scheme_subset: "set (snd (split_scheme url sch)) \<subseteq> set url"
  by (auto simp: split_scheme_def split: option.splits dest: in_set_dropD)

lemma error_is_ValueError: "(e :: error) = ValueError"
  by (cases e)

lemma urlsplit_unfold:
  "urlsplit ip url0 sch0 =
     (let p = split_scheme (filter (\<lambda>c. \<not> unsafe_url_byte c) (dropWhile c0_control_or_space url0))
                (filter (\<lambda>c. \<not> unsafe_url_byte c) (strip_c0 sch0))
      in if take 2 (snd p) = ''//'' then
           (if netloc_ok ip (fst (splitnetloc (snd p)))
            then Inr (split_rest (fst p) (fst (splitnetloc (snd p))) (snd (splitnetloc (snd p))))
            else Inl ValueError)
         else Inr (split_rest (fst p) [] (snd p)))"
  by (simp add: urlsplit_def netloc_ok_def Let_def case_prod_beta error_is_ValueError
           split: sum.splits)

lemma hd_takeWhile: "takeWhile P xs \<noteq> [] \<Longrightarrow> hd (takeWhile P xs) = hd xs \<and> P (hd xs) \<and> xs \<noteq> []"
  by (cases xs) (auto split: if_splits)

lemma urlsplit_path_chars:
  assumes "urlsplit ip url0 sch0 = Inr r"
  shows "\<forall>x\<in>set (path r). path_char x"
proof -
  define u1 where "u1 = filter (\<lambda>c. \<not> unsafe_url_byte c) (dropWhile c0_control_or_space url0)"
  define p where "p = split_scheme u1 (filter (\<lambda>c. \<not> unsafe_url_byte c) (strip_c0 sch0))"
  have safe: "\<forall>x\<in>set (snd p). \<not> unsafe_url_byte x"
    using split_scheme_subset [of u1] by (auto simp: p_def u1_def)
  from assms obtain nl rest where r: "r = split_rest (fst p) nl rest"
    and sub: "set rest \<subseteq> set (snd p)"
    by (auto simp: urlsplit_unfold Let_def p_def u1_def splitnetloc_def
             split: if_splits dest: set_dropWhileD in_set_dropD)
  show ?thesis
  proof
    fix x assume "x \<in> set (path r)"
    then have "x \<in> set rest" and "x \<noteq> CHR ''?''" and "x \<noteq> CHR ''#''"
      by (auto simp: r path_split_rest dest!: set_takeWhileD)
    with sub safe show "path_char x"
      by (auto simp: path_char_def)
  qed
qed

lemma urlsplit_netloc_facts:
  assumes "urlsplit ip url0 sch0 = Inr r" and "netloc r \<noteq> []"
  shows "netloc_ok ip (netloc r)"
    and "\<forall>x\<in>set (netloc r). \<not> netloc_delim x \<and> \<not> unsafe_url_byte x"
    and "path r \<noteq> [] \<Longrightarrow> hd (path r) = CHR ''/''"
proof -
  define u1 where "u1 = filter (\<lambda>c. \<not> unsafe_url_byte c) (dropWhile c0_control_or_space url0)"
  define p where "p = split_scheme u1 (filter (\<lambda>c. \<not> unsafe_url_byte c) (strip_c0 sch0))"
  have safe: "\<forall>x\<in>set (snd p). \<not> unsafe_url_byte x"
    using split_scheme_subset [of u1] by (auto simp: p_def u1_def)
  from assms have ok: "netloc_ok ip (fst (splitnetloc (snd p)))"
    and r: "r = split_rest (fst p) (fst (splitnetloc (snd p))) (snd (splitnetloc (snd p)))"
    by (auto simp: urlsplit_unfold Let_def p_def u1_def split: if_splits)
  from ok r show "netloc_ok ip (netloc r)" by simp
  show "\<forall>x\<in>set (netloc r). \<not> netloc_delim x \<and> \<not> unsafe_url_byte x"
    using safe by (auto simp: r splitnetloc_def dest!: set_takeWhileD dest: in_set_dropD)
  assume nonempty: "path r \<noteq> []"
  let ?rest = "dropWhile (\<lambda>c. \<not> netloc_delim c) (drop 2 (snd p))"
  let ?inner = "takeWhile (\<lambda>x. x \<noteq> CHR ''#'') ?rest"
  have path: "path r = takeWhile (\<lambda>x. x \<noteq> CHR ''?'') ?inner"
    by (simp add: r path_split_rest splitnetloc_def)
  from nonempty hd_takeWhile [of "\<lambda>x. x \<noteq> CHR ''?''" ?inner]
  have a: "hd (path r) = hd ?inner" "hd ?inner \<noteq> CHR ''?''" "?inner \<noteq> []"
    by (simp_all add: path)
  from hd_takeWhile [OF a(3)]
  have b: "hd ?inner = hd ?rest" "hd ?rest \<noteq> CHR ''#''" "?rest \<noteq> []"
    by simp_all
  from hd_dropWhile [OF b(3)] have "netloc_delim (hd ?rest)" by simp
  with a b show "hd (path r) = CHR ''/''"
    by (simp add: netloc_delim_def)
qed

subsection \<open>Parameters\<close>

lemma rfind_last:
  "c \<notin> set suf \<Longrightarrow> rfind (pre @ c # suf) c = Some (length pre)"
  using find_append_first [of c "rev suf" "rev pre"] by (simp add: rfind_def)

lemma splitparams_stable:
  assumes "CHR ''/'' \<notin> set suf" and "CHR '';'' \<notin> set suf"
  shows "splitparams (pre @ CHR ''/'' # suf) = (pre @ CHR ''/'' # suf, [])"
proof -
  have "find (CHR ''/'' # suf) (CHR '';'') = None"
    using assms(2) by (simp add: find_None_iff)
  then show ?thesis
    by (simp add: splitparams_def rfind_last [OF assms(1)] find_from_def)
qed

lemma splitparams_form:
  assumes "CHR ''/'' \<in> set s"
  shows "\<exists>pre suf0 suf. s = pre @ CHR ''/'' # suf0 \<and> CHR ''/'' \<notin> set suf0 \<and>
           fst (splitparams s) = pre @ CHR ''/'' # suf \<and> set suf \<subseteq> set suf0 \<and>
           CHR '';'' \<notin> set suf"
proof -
  from split_list_last [OF assms] obtain pre suf0
    where s: "s = pre @ CHR ''/'' # suf0" and free: "CHR ''/'' \<notin> set suf0"
    by blast
  show ?thesis
  proof (cases "find suf0 (CHR '';'')")
    case None
    then have "CHR '';'' \<notin> set suf0" by (simp add: find_None_iff)
    with free have "fst (splitparams s) = pre @ CHR ''/'' # suf0"
      by (simp add: s splitparams_stable)
    with s free \<open>CHR '';'' \<notin> set suf0\<close> show ?thesis by blast
  next
    case (Some k)
    then have "fst (splitparams s) = pre @ CHR ''/'' # take k suf0"
      by (simp add: s splitparams_def rfind_last [OF free] find_from_def)
    moreover have "CHR '';'' \<notin> set (take k suf0)"
      using find_Some_take [OF Some] by simp
    moreover have "set (take k suf0) \<subseteq> set suf0"
      by (rule set_take_subset)
    ultimately show ?thesis using s free by blast
  qed
qed

lemma urlparse_Inr:
  assumes "urlparse ip url sch0 = Inr p"
  shows "\<exists>r. urlsplit ip url sch0 = Inr r \<and> scheme p = scheme r \<and> netloc p = netloc r \<and>
             query p = query r \<and> fragment p = fragment r \<and>
             path p = (if scheme r \<in> set uses_params \<and> CHR '';'' \<in> set (path r)
                       then fst (splitparams (path r)) else path r) \<and>
             params p = (if scheme r \<in> set uses_params \<and> CHR '';'' \<in> set (path r)
                         then snd (splitparams (path r)) else [])"
proof -
  from assms obtain r where r: "urlsplit ip url sch0 = Inr r"
    by (cases "urlsplit ip url sch0") (simp_all add: urlparse_def)
  define x where "x = (if scheme r \<in> set uses_params \<and> CHR '';'' \<in> set (path r)
                then splitparams (path r) else (path r, []))"
  from assms have "p = \<lparr>scheme = scheme r, netloc = netloc r, path = fst x, query = query r,
                  fragment = fragment r, params = snd x\<rparr>"
    by (simp add: urlparse_def r x_def [symmetric] case_prod_beta Let_def)
  then have "scheme p = scheme r \<and> netloc p = netloc r \<and> query p = query r \<and>
             fragment p = fragment r \<and> path p = fst x \<and> params p = snd x"
    by simp
  with r show ?thesis unfolding x_def by (simp split: if_splits)
qed

subsection \<open>The parts of an accepted URL\<close>

lemma web_scheme_tables:
  assumes "sch = ''http'' \<or> sch = ''https''"
  shows "sch \<in> set uses_params" and "sch \<in> set uses_relative" and "sch \<in> set uses_netloc"
    and "sch \<noteq> []"
  using assms by (auto simp: uses_params_def uses_relative_def uses_netloc_def)

lemma accepted_netloc:
  assumes "urlparse ip a sch0 = Inr p" and "netloc p \<noteq> []"
  shows "netloc_ok ip (netloc p)"
    and "\<forall>x\<in>set (netloc p). \<not> netloc_delim x \<and> \<not> unsafe_url_byte x"
proof -
  from urlparse_Inr [OF assms(1)] obtain r
    where r: "urlsplit ip a sch0 = Inr r" and nl: "netloc p = netloc r"
    by blast
  from assms(2) nl have "netloc r \<noteq> []" by simp
  from urlsplit_netloc_facts(1,2) [OF r this] nl
  show "netloc_ok ip (netloc p)"
    and "\<forall>x\<in>set (netloc p). \<not> netloc_delim x \<and> \<not> unsafe_url_byte x"
    by simp_all
qed

lemma accepted_path:
  assumes "urlparse ip a sch0 = Inr p"
      and "scheme p = ''http'' \<or> scheme p = ''https''"
      and "netloc p \<noteq> []" and "path p \<noteq> []"
  shows "slash_path (path p)"
proof -
  from urlparse_Inr [OF assms(1)] obtain r
    where r: "urlsplit ip a sch0 = Inr r" and sch: "scheme p = scheme r"
      and nl: "netloc p = netloc r"
      and pp: "path p = (if scheme r \<in> set uses_params \<and> CHR '';'' \<in> set (path r)
                       then fst (splitparams (path r)) else path r)"
    by blast
  have uses: "scheme r \<in> set uses_params"
    using web_scheme_tables(1) [OF assms(2)] sch by simp
  have nlr: "netloc r \<noteq> []" using assms(3) nl by simp
  have chars: "\<forall>x\<in>set (path r). path_char x"
    by (rule urlsplit_path_chars [OF r])
  have nonempty: "path r \<noteq> []"
    using pp assms(4) by (auto split: if_splits)
  have hd: "hd (path r) = CHR ''/''"
    by (rule urlsplit_netloc_facts(3) [OF r nlr nonempty])
  then have slash: "CHR ''/'' \<in> set (path r)"
    using nonempty by (metis hd_in_set)
  from splitparams_form [OF slash] obtain pre suf0 suf
    where whole: "path r = pre @ CHR ''/'' # suf0" and free: "CHR ''/'' \<notin> set suf0"
      and cut: "fst (splitparams (path r)) = pre @ CHR ''/'' # suf"
      and sub: "set suf \<subseteq> set suf0" and semi: "CHR '';'' \<notin> set suf"
    by blast
  show ?thesis
  proof (cases "CHR '';'' \<in> set (path r)")
    case True
    with pp uses have path: "path p = pre @ CHR ''/'' # suf"
      by (simp add: cut)
    have "hd (path p) = hd (path r)"
      unfolding path whole by (cases pre) simp_all
    with hd have h1: "hd (path p) = CHR ''/''" by simp
    have h2: "\<forall>x\<in>set (path p). path_char x"
      using chars sub unfolding path whole by auto
    have "CHR ''/'' \<notin> set suf"
      using free sub by blast
    with path semi
    have h3: "\<exists>pre suf. path p = pre @ CHR ''/'' # suf \<and> CHR ''/'' \<notin> set suf \<and>
                CHR '';'' \<notin> set suf"
      by blast
    show ?thesis
      unfolding slash_path_def by (intro conjI h1 h2 h3)
  next
    case False
    with pp have path: "path p = path r" by simp
    have "CHR '';'' \<notin> set suf0"
      using False whole by simp
    with whole free
    have h3: "\<exists>pre suf. path r = pre @ CHR ''/'' # suf \<and> CHR ''/'' \<notin> set suf \<and>
                CHR '';'' \<notin> set suf"
      by blast
    show ?thesis
      unfolding slash_path_def path by (intro conjI hd chars h3)
  qed
qed

lemma slash_path_facts:
  assumes "slash_path P"
  shows "P \<noteq> []" and "hd P = CHR ''/''" and "CHR ''/'' \<in> set P"
    and "CHR ''#'' \<notin> set P" and "CHR ''?'' \<notin> set P"
    and "filter (\<lambda>c. \<not> unsafe_url_byte c) (dropWhile c0_control_or_space P) = P"
    and "splitparams P = (P, [])"
proof -
  from assms obtain pre suf where form: "P = pre @ CHR ''/'' # suf"
    and free: "CHR ''/'' \<notin> set suf" "CHR '';'' \<notin> set suf"
    and hd: "hd P = CHR ''/''" and chars: "\<forall>x\<in>set P. path_char x"
    unfolding slash_path_def by blast
  show ne: "P \<noteq> []" using form by simp
  show "hd P = CHR ''/''" by (rule hd)
  show "CHR ''/'' \<in> set P" using form by simp
  show "CHR ''#'' \<notin> set P" and "CHR ''?'' \<notin> set P"
    using chars by (auto simp: path_char_def)
  have "\<not> c0_control_or_space (hd P)"
    by (simp add: hd c0_control_or_space_def)
  then have "dropWhile c0_control_or_space P = P"
    using ne by (cases P) simp_all
  moreover have "filter (\<lambda>c. \<not> unsafe_url_byte c) P = P"
    using chars by (auto simp: path_char_def filter_id_conv)
  ultimately show "filter (\<lambda>c. \<not> unsafe_url_byte c) (dropWhile c0_control_or_space P) = P"
    by simp
  show "splitparams P = (P, [])"
    unfolding form by (rule splitparams_stable [OF free])
qed

subsection \<open>Parsing a path again\<close>

lemma split_scheme_slash: "hd P = CHR ''/'' \<Longrightarrow> split_scheme P sch = (sch, P)"
  by (simp add: split_scheme_def ascii_alpha_def split: option.splits)

lemma web_scheme_default:
  assumes "sch = ''http'' \<or> sch = ''https''"
  shows "filter (\<lambda>c. \<not> unsafe_url_byte c) (strip_c0 sch) = sch"
  using assms by (auto simp: strip_c0_def c0_control_or_space_def unsafe_url_byte_def)

lemma urlsplit_slash_path:
  assumes "slash_path P" and "sch = ''http'' \<or> sch = ''https''"
  shows "urlsplit ip P sch =
           (if take 2 P = ''//'' then
              (if netloc_ok ip (fst (splitnetloc P))
               then Inr (split_rest sch (fst (splitnetloc P)) (snd (splitnetloc P)))
               else Inl ValueError)
            else Inr \<lparr>scheme = sch, netloc = [], path = P, query = [], fragment = []\<rparr>)"
  using slash_path_facts(4,5) [OF assms(1)]
  by (simp add: urlsplit_unfold slash_path_facts(6) [OF assms(1)] web_scheme_default [OF assms(2)]
        split_scheme_slash [OF slash_path_facts(2) [OF assms(1)]] split_rest_plain)

lemma urlparse_slash_path:
  assumes "slash_path P" and "take 2 P \<noteq> ''//''" and "sch = ''http'' \<or> sch = ''https''"
  shows "urlparse ip P sch =
           Inr \<lparr>scheme = sch, netloc = [], path = P, query = [], fragment = [], params = []\<rparr>"
  using assms(2)
  by (simp add: urlparse_def urlsplit_slash_path [OF assms(1,3)] slash_path_facts(7) [OF assms(1)])

lemma splitparams_subset:
  "set (fst (splitparams s)) \<subseteq> set s \<and> set (snd (splitparams s)) \<subseteq> set s"
  by (auto simp: splitparams_def split: option.splits
           dest: in_set_takeD in_set_dropD in_set_butlastD)

lemma urlparse_of_path:
  assumes P: "slash_path P" and sch: "sch = ''http'' \<or> sch = ''https''"
      and u: "urlparse ip P sch = Inr u"
  shows "scheme u = sch" and "query u = []" and "fragment u = []"
    and "set (netloc u) \<union> set (path u) \<union> set (params u) \<subseteq> set P"
    and "P \<noteq> ''//'' \<Longrightarrow> netloc u \<noteq> [] \<or> path u \<noteq> []"
proof -
  from urlparse_Inr [OF u] obtain r
    where r: "urlsplit ip P sch = Inr r" and same: "scheme u = scheme r" "netloc u = netloc r"
      "query u = query r" "fragment u = fragment r"
      and pp: "path u = (if scheme r \<in> set uses_params \<and> CHR '';'' \<in> set (path r)
                       then fst (splitparams (path r)) else path r)"
        "params u = (if scheme r \<in> set uses_params \<and> CHR '';'' \<in> set (path r)
                         then snd (splitparams (path r)) else [])"
    by blast
  let ?nl = "takeWhile (\<lambda>c. \<not> netloc_delim c) (drop 2 P)"
  let ?rest = "dropWhile (\<lambda>c. \<not> netloc_delim c) (drop 2 P)"
  have rest_sub: "set ?rest \<subseteq> set P"
    by (auto dest: set_dropWhileD in_set_dropD)
  have nl_sub: "set ?nl \<subseteq> set P"
    by (auto dest: set_takeWhileD in_set_dropD)
  have rest_plain: "CHR ''#'' \<notin> set ?rest" "CHR ''?'' \<notin> set ?rest"
    using slash_path_facts(4,5) [OF P] rest_sub by blast+
  have r_eq: "r = (if take 2 P = ''//''
                   then \<lparr>scheme = sch, netloc = ?nl, path = ?rest, query = [], fragment = []\<rparr>
                   else \<lparr>scheme = sch, netloc = [], path = P, query = [], fragment = []\<rparr>)"
    using r rest_plain
    by (simp add: urlsplit_slash_path [OF P sch] splitnetloc_def split_rest_plain split: if_splits)
  show "scheme u = sch" and "query u = []" and "fragment u = []"
    using same r_eq by (simp_all split: if_splits)
  have path_sub: "set (path r) \<subseteq> set P" and nl_r: "set (netloc r) \<subseteq> set P"
    using r_eq rest_sub nl_sub by (auto split: if_splits)
  have "set (path u) \<subseteq> set (path r) \<and> set (params u) \<subseteq> set (path r)"
    using pp splitparams_subset [of "path r"] by (auto split: if_splits)
  with path_sub nl_r same(2)
  show "set (netloc u) \<union> set (path u) \<union> set (params u) \<subseteq> set P"
    by auto
  assume not_root: "P \<noteq> ''//''"
  have r_nonempty: "netloc r \<noteq> [] \<or> path r \<noteq> [] \<and> hd (path r) = CHR ''/''"
  proof (cases "take 2 P = ''//''")
    case False
    with r_eq slash_path_facts(1,2) [OF P] show ?thesis by simp
  next
    case True
    show ?thesis
    proof (cases "?nl = []")
      case False
      with True r_eq show ?thesis by simp
    next
      case nl: True
      have "?nl @ ?rest = drop 2 P" by (rule takeWhile_dropWhile_id)
      with nl have rest: "?rest = drop 2 P" by simp
      have "take 2 P @ drop 2 P = P" by (rule append_take_drop_id)
      with True not_root have "drop 2 P \<noteq> []" by auto
      with rest have ne: "?rest \<noteq> []" by simp
      from hd_dropWhile [OF ne] have "netloc_delim (hd ?rest)" by simp
      moreover have "hd ?rest \<in> set ?rest" using ne by (rule hd_in_set)
      ultimately have "hd ?rest = CHR ''/''"
        using rest_plain by (auto simp: netloc_delim_def)
      with True r_eq ne show ?thesis by simp
    qed
  qed
  show "netloc u \<noteq> [] \<or> path u \<noteq> []"
  proof (cases "netloc r \<noteq> []")
    case True
    with same(2) show ?thesis by simp
  next
    case False
    with r_nonempty have ne: "path r \<noteq> []" and hd: "hd (path r) = CHR ''/''" by simp_all
    then have "CHR ''/'' \<in> set (path r)" by (metis hd_in_set)
    from splitparams_form [OF this] have "fst (splitparams (path r)) \<noteq> []" by auto
    with pp(1) ne have "path u \<noteq> []" by (simp split: if_splits)
    then show ?thesis by simp
  qed
qed

subsection \<open>Putting a URL together\<close>

lemma urlunparse_chars:
  "set (urlunparse sch nl url prm [] []) \<subseteq>
     set sch \<union> set nl \<union> set url \<union> set prm \<union> {CHR ''/'', CHR '':'', CHR '';''}"
  by (auto simp: urlunparse_def urlunsplit_def Let_def split: if_splits)

lemma urlunparse_web:
  assumes "sch = ''http'' \<or> sch = ''https''" and "X \<noteq> []"
  shows "urlunparse sch nl X [] [] [] = sch @ ''://'' @ nl @ rooted X"
  using assms(2) web_scheme_tables(3,4) [OF assms(1)]
  by (simp add: urlunparse_def urlunsplit_def rooted_def)

lemma join_parsed_web:
  assumes "sch = ''http'' \<or> sch = ''https''"
      and "scheme b = sch" and "scheme u = sch"
      and "netloc u \<noteq> [] \<or> path u \<noteq> []"
  shows "join_parsed b u url =
           (if netloc u \<noteq> []
            then urlunparse sch (netloc u) (path u) (params u) (query u) (fragment u)
            else urlunparse sch (netloc b) (resolve_path (path b) (path u))
                   (params u) (query u) (fragment u))"
  using assms(2,3,4) web_scheme_tables(2,3) [OF assms(1)]
  by (simp add: join_parsed_def resolve_path_def Let_def)

lemma drop_empty_inner_subset: "set (drop_empty_inner segs) \<subseteq> set segs"
  by (cases segs) (auto simp: drop_empty_inner_def dest: in_set_butlastD)

lemma resolve_path_chars:
  "set (resolve_path bpath upath) \<subseteq> insert (CHR ''/'') (set bpath \<union> set upath)"
proof -
  define base_parts0 where "base_parts0 = str_split bpath (CHR ''/'')"
  define base_parts where
    "base_parts = (if last base_parts0 \<noteq> [] then butlast base_parts0 else base_parts0)"
  define segments where
    "segments = (if take 1 upath = ''/'' then str_split upath (CHR ''/'')
                 else drop_empty_inner (base_parts @ str_split upath (CHR ''/'')))"
  define resolved_path where
    "resolved_path = (if last segments = ''.'' \<or> last segments = ''..''
                      then resolve segments [] @ [[]] else resolve segments [])"
  have base: "\<forall>w\<in>set base_parts. set w \<subseteq> set bpath"
    unfolding base_parts_def base_parts0_def
    by (auto dest!: in_set_butlastD dest: str_split_free)
  have "set segments \<subseteq> set base_parts \<union> set (str_split upath (CHR ''/''))"
    unfolding segments_def using drop_empty_inner_subset [of "base_parts @ str_split upath (CHR ''/'')"]
    by auto
  with base have segs: "\<forall>w\<in>set segments. set w \<subseteq> set bpath \<union> set upath"
    by (auto dest: str_split_free)
  have "set resolved_path \<subseteq> insert [] (set segments)"
    unfolding resolved_path_def using resolve_subset [of segments "[]"] by auto
  then have "\<And>w. w \<in> set resolved_path \<Longrightarrow> w = [] \<or> w \<in> set segments"
    by blast
  with segs have "\<forall>w\<in>set resolved_path. set w \<subseteq> set bpath \<union> set upath"
    by fastforce
  with set_str_join [of "''/''" resolved_path]
  have "set (str_join ''/'' resolved_path) \<subseteq> insert (CHR ''/'') (set bpath \<union> set upath)"
    by auto
  moreover have "resolve_path bpath upath =
      (if str_join ''/'' resolved_path = [] then ''/'' else str_join ''/'' resolved_path)"
    unfolding resolve_path_def Let_def resolved_path_def segments_def base_parts_def
      base_parts0_def by (rule refl)
  ultimately show ?thesis by simp
qed

subsection \<open>Cleaning an accepted URL\<close>

lemma urlparse_empty:
  "urlparse ip [] [] =
     Inr \<lparr>scheme = [], netloc = [], path = [], query = [], fragment = [], params = []\<rparr>"
  by (simp add: urlparse_def urlsplit_def split_scheme_def split_rest_def strip_c0_def
        uses_params_def)

lemma clean_absolute_slash:
  assumes parse: "urlparse ip a [] = Inr p"
      and sch: "scheme p = ''http'' \<or> scheme p = ''https''"
      and nl: "netloc p \<noteq> []"
      and nonempty: "path p \<noteq> []" and not_root: "path p \<noteq> ''//''"
  shows "clean_absolute ip a =
           (case urlparse ip (path p) (scheme p) of
              Inl e \<Rightarrow> Inl e
            | Inr u \<Rightarrow>
                Inr (Some (if netloc u \<noteq> []
                           then urlunparse (scheme p) (netloc u) (path u) (params u) [] []
                           else urlunparse (scheme p) (netloc p)
                                  (resolve_path (path p) (path u)) (params u) [] [])))"
proof -
  have P: "slash_path (path p)"
    by (rule accepted_path [OF parse sch nl nonempty])
  have a: "a \<noteq> []"
    using parse nl by (auto simp: urlparse_empty)
  have accepted: "scheme p \<in> set [''http'', ''https'']"
    using sch by auto
  show ?thesis
  proof (cases "urlparse ip (path p) (scheme p)")
    case (Inl e)
    then show ?thesis
      using a nonempty accepted nl
      by (simp add: clean_absolute_def parse urljoin_def)
  next
    case (Inr u)
    have u: "scheme u = scheme p" "query u = []" "fragment u = []"
      "netloc u \<noteq> [] \<or> path u \<noteq> []"
      using urlparse_of_path(1,2,3) [OF P sch Inr] urlparse_of_path(5) [OF P sch Inr not_root]
      by simp_all
    have "join_parsed p u (path p) =
           (if netloc u \<noteq> []
            then urlunparse (scheme p) (netloc u) (path u) (params u) [] []
            else urlunparse (scheme p) (netloc p) (resolve_path (path p) (path u))
                   (params u) [] [])"
      using join_parsed_web [OF sch refl u(1) u(4), of "path p"] u(2,3) by simp
    then show ?thesis
      using a nonempty accepted nl Inr
      by (simp add: clean_absolute_def parse urljoin_def)
  qed
qed

subsection \<open>The resolved path\<close>

lemma resolve_path_absolute:
  assumes "take 1 upath = ''/''"
  shows "resolve_path bpath upath =
           (let segments = str_split upath (CHR ''/'');
                resolved_path = (if last segments = ''.'' \<or> last segments = ''..''
                                 then resolve segments [] @ [[]] else resolve segments []);
                joined = str_join ''/'' resolved_path
            in if joined = [] then ''/'' else joined)"
  using assms by (simp add: resolve_path_def Let_def)

lemma resolve_path_not_Nil: "resolve_path bpath upath \<noteq> []"
  by (simp add: resolve_path_def Let_def)

lemma rooted_resolve_shape:
  assumes "slash_path P"
  shows "\<exists>R. rooted (resolve_path bpath P) = str_join ''/'' R \<and> 2 \<le> length R \<and> hd R = [] \<and>
             (\<forall>w\<in>set R. CHR ''/'' \<notin> set w \<and> w \<noteq> ''.'' \<and> w \<noteq> ''..'' \<and> set w \<subseteq> set P) \<and>
             CHR '';'' \<notin> set (last R)"
proof -
  from assms obtain pre suf where form: "P = pre @ CHR ''/'' # suf"
    and free: "CHR ''/'' \<notin> set suf" and semi: "CHR '';'' \<notin> set suf"
    unfolding slash_path_def by blast
  have take1: "take 1 P = ''/''"
    using slash_path_facts(1,2) [OF assms] by (cases P) simp_all
  define segs where "segs = str_split P (CHR ''/'')"
  have segs_ne: "segs \<noteq> []"
    unfolding segs_def by (rule str_split_not_Nil)
  have segs_prop: "\<forall>w\<in>set segs. CHR ''/'' \<notin> set w \<and> set w \<subseteq> set P"
    unfolding segs_def using str_split_free by blast
  have last_segs: "last segs = suf"
    unfolding segs_def form by (rule last_str_split [OF free])
  define Q where "Q = (if last segs = ''.'' \<or> last segs = ''..''
                       then resolve segs [] @ [[]] else resolve segs [])"
  have res_prop: "\<forall>w\<in>set (resolve segs []). CHR ''/'' \<notin> set w \<and> w \<noteq> ''.'' \<and> w \<noteq> ''..'' \<and>
                    set w \<subseteq> set P"
    using resolve_subset [of segs "[]"] resolve_no_dots [of "[]" segs] segs_prop by auto
  have Q_prop: "\<forall>w\<in>set Q. CHR ''/'' \<notin> set w \<and> w \<noteq> ''.'' \<and> w \<noteq> ''..'' \<and> set w \<subseteq> set P"
    unfolding Q_def using res_prop by auto
  have Q_last: "CHR '';'' \<notin> set (last Q)" if "Q \<noteq> []"
  proof (cases "last segs = ''.'' \<or> last segs = ''..''")
    case True
    then show ?thesis by (simp add: Q_def)
  next
    case False
    have "segs = butlast segs @ [last segs]"
      using segs_ne by simp
    then have "resolve segs [] = resolve (butlast segs @ [last segs]) []"
      by simp
    also have "\<dots> = resolve (butlast segs) [] @ [last segs]"
      using False by (simp only: resolve_snoc) simp
    finally have "last (resolve segs []) = last segs"
      by simp
    with False semi last_segs show ?thesis
      by (simp add: Q_def)
  qed
  define j where "j = str_join ''/'' Q"
  have rp: "resolve_path bpath P = (if j = [] then ''/'' else j)"
    unfolding resolve_path_absolute [OF take1] Let_def j_def Q_def segs_def by (rule refl)
  consider (empty) "j = []" | (abs) "j \<noteq> []" "take 1 j = ''/''"
    | (rel) "j \<noteq> []" "take 1 j \<noteq> ''/''"
    by blast
  then show ?thesis
  proof cases
    case empty
    have "rooted (resolve_path bpath P) = str_join ''/'' [[], []]"
      by (simp add: rp empty rooted_def)
    moreover have "\<forall>w\<in>set [[], []::string]. CHR ''/'' \<notin> set w \<and> w \<noteq> ''.'' \<and> w \<noteq> ''..'' \<and>
                     set w \<subseteq> set P"
      by simp
    ultimately show ?thesis
      by (intro exI [of _ "[[], []]"]) simp
  next
    case abs
    have eq: "rooted (resolve_path bpath P) = str_join ''/'' Q"
      using abs by (simp add: rp rooted_def j_def)
    from abs(1) have Q_ne: "Q \<noteq> []"
      by (auto simp: j_def)
    then obtain w ws where Q: "Q = w # ws" by (cases Q) auto
    have hdj: "hd j = CHR ''/''"
      using abs by (cases j) simp_all
    have w_free: "CHR ''/'' \<notin> set w"
      using Q_prop Q by simp
    have "ws \<noteq> []"
    proof
      assume "ws = []"
      with Q have "j = w" by (simp add: j_def)
      with abs(1) hdj have "CHR ''/'' \<in> set w" by (metis hd_in_set)
      with w_free show False ..
    qed
    then obtain w' ws' where ws: "ws = w' # ws'" by (cases ws) auto
    have "w = []"
    proof (rule ccontr)
      assume "w \<noteq> []"
      then have "hd j = hd w" by (simp add: j_def Q ws)
      with hdj \<open>w \<noteq> []\<close> have "CHR ''/'' \<in> set w" by (metis hd_in_set)
      with w_free show False ..
    qed
    with Q ws have "2 \<le> length Q" and "hd Q = []" by simp_all
    with eq Q_prop Q_last [OF Q_ne] show ?thesis by blast
  next
    case rel
    from rel(1) have Q_ne: "Q \<noteq> []"
      by (auto simp: j_def)
    then obtain w ws where Q: "Q = w # ws" by (cases Q) auto
    have eq: "rooted (resolve_path bpath P) = str_join ''/'' ([] # Q)"
      using rel by (simp add: rp rooted_def j_def Q)
    have "2 \<le> length ([] # Q)" and "hd ([] # Q) = []" and "last ([] # Q) = last Q"
      using Q by simp_all
    moreover have "\<forall>w\<in>set ([] # Q). CHR ''/'' \<notin> set w \<and> w \<noteq> ''.'' \<and> w \<noteq> ''..'' \<and>
                     set w \<subseteq> set P"
      using Q_prop by simp
    ultimately show ?thesis
      using eq Q_last [OF Q_ne] by (intro exI [of _ "[] # Q"]) simp
  qed
qed

lemma joined_head:
  assumes "2 \<le> length R" and "hd R = []"
  shows "str_join ''/'' R \<noteq> []" and "hd (str_join ''/'' R) = CHR ''/''"
    and "take 1 (str_join ''/'' R) = ''/''"
proof -
  from assms obtain w ws where "R = [] # w # ws"
    by (cases R; cases "tl R") auto
  then show "str_join ''/'' R \<noteq> []" and "hd (str_join ''/'' R) = CHR ''/''"
    and "take 1 (str_join ''/'' R) = ''/''"
    by simp_all
qed

lemma joined_slash_path:
  assumes "2 \<le> length R" and "hd R = []"
      and "\<forall>w\<in>set R. CHR ''/'' \<notin> set w \<and> (\<forall>x\<in>set w. path_char x)"
      and "CHR '';'' \<notin> set (last R)"
  shows "slash_path (str_join ''/'' R)"
proof -
  have R_ne: "R \<noteq> []" and front: "butlast R \<noteq> []"
    using assms(1) by (cases R; cases "tl R"; auto)+
  have "R = butlast R @ [last R]"
    using R_ne by simp
  then have "str_join ''/'' R = str_join ''/'' (butlast R @ [last R])"
    by simp
  also have "\<dots> = str_join ''/'' (butlast R) @ CHR ''/'' # last R"
    using str_join_snoc [OF front, of "''/''" "last R"] by simp
  finally have form: "str_join ''/'' R = str_join ''/'' (butlast R) @ CHR ''/'' # last R" .
  have lastR: "last R \<in> set R"
    using R_ne by simp
  have h3: "\<exists>pre suf. str_join ''/'' R = pre @ CHR ''/'' # suf \<and> CHR ''/'' \<notin> set suf \<and>
              CHR '';'' \<notin> set suf"
    using form assms(3,4) lastR by blast
  have slash: "path_char (CHR ''/'')"
    by (simp add: path_char_def unsafe_url_byte_def)
  have h2: "\<forall>x\<in>set (str_join ''/'' R). path_char x"
  proof
    fix x assume "x \<in> set (str_join ''/'' R)"
    with set_str_join [of "''/''" R] have "x = CHR ''/'' \<or> (\<exists>w\<in>set R. x \<in> set w)"
      by auto
    with slash assms(3) show "path_char x" by blast
  qed
  show ?thesis
    unfolding slash_path_def by (intro conjI joined_head(2) [OF assms(1,2)] h2 h3)
qed

lemma joined_fixed:
  assumes "2 \<le> length R" and "hd R = []"
      and "\<forall>w\<in>set R. CHR ''/'' \<notin> set w \<and> w \<noteq> ''.'' \<and> w \<noteq> ''..''"
  shows "resolve_path bpath (str_join ''/'' R) = str_join ''/'' R"
proof -
  have R_ne: "R \<noteq> []"
    using assms(1) by auto
  have split: "str_split (str_join ''/'' R) (CHR ''/'') = R"
    using str_split_join [OF R_ne, of "CHR ''/''"] assms(3) by simp
  have plain: "resolve R [] = R"
    using resolve_plain [of R "[]"] assms(3) by simp
  have "last R \<in> set R"
    using R_ne by simp
  with assms(3) have last: "\<not> (last R = ''.'' \<or> last R = ''..'')"
    by blast
  show ?thesis
    unfolding resolve_path_absolute [OF joined_head(3) [OF assms(1,2)]] Let_def split plain
    using last joined_head(1) [OF assms(1,2)] by simp
qed

subsection \<open>Parsing a cleaned URL\<close>

lemma splitnetloc_clean:
  assumes "\<forall>x\<in>set n. \<not> netloc_delim x" and "Y \<noteq> []" and "hd Y = CHR ''/''"
  shows "splitnetloc (''//'' @ n @ Y) = (n, Y)"
proof -
  obtain y ys where Y: "Y = y # ys" and y: "netloc_delim y"
    using assms(2,3) by (cases Y) (auto simp: netloc_delim_def)
  have "takeWhile (\<lambda>c. \<not> netloc_delim c) (n @ Y) = n"
    using assms(1) y by (simp add: Y takeWhile_append2)
  moreover have "dropWhile (\<lambda>c. \<not> netloc_delim c) (n @ Y) = Y"
    using assms(1) y by (simp add: Y dropWhile_append2)
  ultimately show ?thesis
    by (simp add: splitnetloc_def)
qed

lemma split_scheme_web:
  assumes "sch = ''http'' \<or> sch = ''https''"
  shows "split_scheme (sch @ ''://'' @ rest) sch0 = (sch, ''//'' @ rest)"
  using assms
  by (auto simp: split_scheme_def ascii_alpha_def scheme_chars_def lower_def)

lemma clean_form_safe:
  assumes "sch = ''http'' \<or> sch = ''https''"
      and "\<forall>x\<in>set n. \<not> unsafe_url_byte x" and "\<forall>x\<in>set Y. \<not> unsafe_url_byte x"
  shows "filter (\<lambda>c. \<not> unsafe_url_byte c) (dropWhile c0_control_or_space (sch @ ''://'' @ n @ Y))
           = sch @ ''://'' @ n @ Y"
proof -
  obtain rest where sch: "sch = CHR ''h'' # rest"
    using assms(1) by auto
  have "\<not> c0_control_or_space (CHR ''h'')"
    by (simp add: c0_control_or_space_def)
  then have drop: "dropWhile c0_control_or_space (sch @ ''://'' @ n @ Y) = sch @ ''://'' @ n @ Y"
    by (simp add: sch)
  have "\<forall>x\<in>set sch. \<not> unsafe_url_byte x"
    using assms(1) by (elim disjE) (simp_all add: unsafe_url_byte_def)
  moreover have "\<forall>x\<in>set ''://''. \<not> unsafe_url_byte x"
    by (simp add: unsafe_url_byte_def)
  ultimately have "\<forall>x\<in>set (sch @ ''://'' @ n @ Y). \<not> unsafe_url_byte x"
    using assms(2,3) by (simp only: set_append ball_Un)
  then have "filter (\<lambda>c. \<not> unsafe_url_byte c) (sch @ ''://'' @ n @ Y) = sch @ ''://'' @ n @ Y"
    by (simp only: filter_id_conv)
  with drop show ?thesis by simp
qed

lemma urlparse_clean_form:
  assumes sch: "sch = ''http'' \<or> sch = ''https''"
      and ok: "netloc_ok ip n"
      and n: "\<forall>x\<in>set n. \<not> netloc_delim x \<and> \<not> unsafe_url_byte x"
      and Y: "slash_path Y"
  shows "urlparse ip (sch @ ''://'' @ n @ Y) sch0 =
           Inr \<lparr>scheme = sch, netloc = n, path = Y, query = [], fragment = [], params = []\<rparr>"
proof -
  have safeY: "\<forall>x\<in>set Y. \<not> unsafe_url_byte x"
    using Y by (auto simp: slash_path_def path_char_def)
  have safe: "filter (\<lambda>c. \<not> unsafe_url_byte c)
                (dropWhile c0_control_or_space (sch @ ''://'' @ n @ Y)) = sch @ ''://'' @ n @ Y"
    using clean_form_safe [OF sch _ safeY] n by blast
  have nl: "splitnetloc (''//'' @ n @ Y) = (n, Y)"
    using splitnetloc_clean [OF _ slash_path_facts(1,2) [OF Y]] n by blast
  have split: "urlsplit ip (sch @ ''://'' @ n @ Y) sch0 =
                 Inr \<lparr>scheme = sch, netloc = n, path = Y, query = [], fragment = []\<rparr>"
    unfolding urlsplit_unfold safe split_scheme_web [OF sch] Let_def
    using ok slash_path_facts(4,5) [OF Y] by (simp add: nl [simplified] split_rest_plain)
  show ?thesis
    unfolding urlparse_def split
    using web_scheme_tables(1) [OF sch]
    by (simp add: slash_path_facts(7) [OF Y])
qed

lemma clean_absolute_single:
  assumes parse: "urlparse ip a [] = Inr p"
      and sch: "scheme p = ''http'' \<or> scheme p = ''https''"
      and nl: "netloc p \<noteq> []"
      and nonempty: "path p \<noteq> []" and single: "take 2 (path p) \<noteq> ''//''"
  shows "clean_absolute ip a =
           Inr (Some (scheme p @ ''://'' @ netloc p @ rooted (resolve_path (path p) (path p))))"
proof -
  have P: "slash_path (path p)"
    by (rule accepted_path [OF parse sch nl nonempty])
  have not_root: "path p \<noteq> ''//''"
    using single by auto
  show ?thesis
    unfolding clean_absolute_slash [OF parse sch nl nonempty not_root]
      urlparse_slash_path [OF P single sch]
    by (simp add: urlunparse_web [OF sch resolve_path_not_Nil])
qed

lemma join_parsed_netloc:
  assumes "scheme u \<in> set uses_netloc" and "netloc u \<noteq> []"
  shows "join_parsed b u url =
     (if scheme u \<noteq> scheme b \<or> scheme u \<notin> set uses_relative then url
      else urlunparse (scheme u) (netloc u) (path u) (params u) (query u) (fragment u))"
proof (cases "scheme u \<noteq> scheme b \<or> scheme u \<notin> set uses_relative")
  case True
  then show ?thesis
    unfolding join_parsed_def by (simp only: if_P)
next
  case False
  have both: "scheme u \<in> set uses_netloc \<and> netloc u \<noteq> []"
    using assms by simp
  show ?thesis
    unfolding join_parsed_def by (simp only: if_not_P [OF False] if_P [OF both])
qed

lemma urljoin_clean_form:
  assumes sch: "sch = ''http'' \<or> sch = ''https''"
      and ok: "netloc_ok ip n" and ne: "n \<noteq> []"
      and n: "\<forall>x\<in>set n. \<not> netloc_delim x \<and> \<not> unsafe_url_byte x"
      and Y: "slash_path Y"
      and base: "urlparse ip url [] = Inr b"
  shows "urljoin ip url (sch @ ''://'' @ n @ Y) = Inr (sch @ ''://'' @ n @ Y)"
proof -
  let ?c = "sch @ ''://'' @ n @ Y"
  let ?u = "\<lparr>scheme = sch, netloc = n, path = Y, query = [], fragment = [], params = []\<rparr>"
  have c: "?c \<noteq> []"
    using sch by auto
  have u: "urlparse ip ?c (scheme b) = Inr ?u"
    by (rule urlparse_clean_form [OF sch ok n Y])
  have rooted: "rooted Y = Y"
    using slash_path_facts(1,2) [OF Y] by (cases Y) (simp_all add: rooted_def)
  have "urlunparse sch n Y [] [] [] = ?c"
    using urlunparse_web [OF sch slash_path_facts(1) [OF Y], of n] rooted by simp
  moreover have "join_parsed b ?u ?c =
      (if sch \<noteq> scheme b \<or> sch \<notin> set uses_relative then ?c
       else urlunparse sch n Y [] [] [])"
    using join_parsed_netloc [of ?u b ?c] web_scheme_tables(3) [OF sch] ne by simp
  ultimately have "join_parsed b ?u ?c = ?c"
    by (simp only: if_cancel)
  show ?thesis
  proof (cases "url = []")
    case True
    then show ?thesis by (simp add: urljoin_def)
  next
    case False
    have "urljoin ip url ?c =
            (case urlparse ip url [] of
               Inl e \<Rightarrow> Inl e
             | Inr b \<Rightarrow> (case urlparse ip ?c (scheme b) of
                           Inl e \<Rightarrow> Inl e
                         | Inr u \<Rightarrow> Inr (join_parsed b u ?c)))"
      using False c unfolding urljoin_def by (simp only: if_False)
    also have "\<dots> = Inr (join_parsed b ?u ?c)"
      by (simp only: base sum.case u)
    finally show ?thesis
      using \<open>join_parsed b ?u ?c = ?c\<close> by simp
  qed
qed

section \<open>Properties of link extraction\<close>

text \<open>
  C5: the code at an \<^verbatim>\<open>href\<close> whose URL has an empty path. \<^verbatim>\<open>urljoin(absolute_url, '')\<close>
  returns \<^verbatim>\<open>absolute_url\<close> as it is, so the fragment that the comment in scrape\_rps.py
  says is removed stays in the link; with the path \<^verbatim>\<open>/\<close> it is removed.
\<close>

theorem fragment_kept_on_empty_path:
  "clean_link no_ip ''http://example.com/'' ''http://example.com#top''
     = Inr (Some ''http://example.com#top'') \<and>
   map_sum id fragment (urlparse no_ip ''http://example.com#top'' []) = Inr ''top'' \<and>
   clean_link no_ip ''http://example.com'' ''#top'' = Inr (Some ''http://example.com#top'') \<and>
   clean_link no_ip ''http://example.com/'' ''http://example.com/#top''
     = Inr (Some ''http://example.com/'')"
  by code_simp

text \<open>
  C10 (as stated) fails for the path \<^verbatim>\<open>//\<close>: parsed again, it is an empty netloc with an
  empty path, and \<^verbatim>\<open>urljoin\<close> then takes path and query from the base URL.
\<close>

theorem query_kept_counterexample:
  "map_sum id path (urlparse no_ip ''http://example.com//?q=1'' []) = Inr ''//'' \<and>
   clean_link no_ip ''http://example.com/'' ''http://example.com//?q=1''
     = Inr (Some ''http://example.com//?q=1'') \<and>
   clean_link no_ip ''http://example.com/'' ''http://example.com//?q=2''
     = Inr (Some ''http://example.com//?q=2'')"
  by code_simp

text \<open>
  C10 (as amended). When the resolved URL of an accepted \<^verbatim>\<open>href\<close> has a path that is
  neither empty nor \<^verbatim>\<open>//\<close>, the link has no \<^verbatim>\<open>?\<close> in it, and any \<^verbatim>\<open>href\<close> whose resolved
  URL has the same scheme, netloc and path gives the same link.
\<close>

theorem query_dropped_unless_root_path:
  assumes join: "urljoin ip url href = Inr absolute_url"
      and parse: "urlparse ip absolute_url [] = Inr parsed_url"
      and nonempty: "path parsed_url \<noteq> []" and not_root: "path parsed_url \<noteq> ''//''"
      and clean: "clean_link ip url href = Inr (Some clean_url)"
  shows "CHR ''?'' \<notin> set clean_url \<and>
         (\<forall>url' href' absolute_url' parsed_url'.
            urljoin ip url' href' = Inr absolute_url' \<and>
            urlparse ip absolute_url' [] = Inr parsed_url' \<and>
            scheme parsed_url' = scheme parsed_url \<and>
            netloc parsed_url' = netloc parsed_url \<and>
            path parsed_url' = path parsed_url
            \<longrightarrow> clean_link ip url' href' = Inr (Some clean_url))"
proof -
  let ?P = "path parsed_url"
  from clean join have abs: "clean_absolute ip absolute_url = Inr (Some clean_url)"
    by (simp add: clean_link_def)
  then have sch: "scheme parsed_url = ''http'' \<or> scheme parsed_url = ''https''"
    and nl: "netloc parsed_url \<noteq> []"
    by (auto simp: clean_absolute_def parse split: if_splits)
  note shape = clean_absolute_slash [OF _ _ _ nonempty not_root]
  from abs shape [OF parse sch nl] obtain u
    where u: "urlparse ip ?P (scheme parsed_url) = Inr u"
      and c: "clean_url =
               (if netloc u \<noteq> []
                then urlunparse (scheme parsed_url) (netloc u) (path u) (params u) [] []
                else urlunparse (scheme parsed_url) (netloc parsed_url)
                       (resolve_path ?P (path u)) (params u) [] [])"
    by (auto split: sum.splits)
  have P: "slash_path ?P"
    by (rule accepted_path [OF parse sch nl nonempty])
  have noq: "CHR ''?'' \<notin> set ?P"
    by (rule slash_path_facts(5) [OF P])
  have parts: "set (netloc u) \<union> set (path u) \<union> set (params u) \<subseteq> set ?P"
    by (rule urlparse_of_path(4) [OF P sch u])
  have "CHR ''?'' \<notin> set (scheme parsed_url)"
    using sch by auto
  moreover have "CHR ''?'' \<notin> set (netloc parsed_url)"
    using accepted_netloc(2) [OF parse nl] by (auto simp: netloc_delim_def)
  moreover have "CHR ''?'' \<notin> set (resolve_path ?P (path u))"
    using resolve_path_chars [of ?P "path u"] noq parts by auto
  moreover have "CHR ''?'' \<notin> set (netloc u) \<union> set (path u) \<union> set (params u)"
    using noq parts by blast
  ultimately have first: "CHR ''?'' \<notin> set clean_url"
    using urlunparse_chars [of "scheme parsed_url" "netloc u" "path u" "params u"]
      urlunparse_chars [of "scheme parsed_url" "netloc parsed_url"
        "resolve_path ?P (path u)" "params u"]
    unfolding c by (auto split: if_splits)
  have second: "clean_link ip url' href' = Inr (Some clean_url)"
    if other: "urljoin ip url' href' = Inr absolute_url'"
      "urlparse ip absolute_url' [] = Inr parsed_url'"
      "scheme parsed_url' = scheme parsed_url"
      "netloc parsed_url' = netloc parsed_url"
      "path parsed_url' = path parsed_url"
    for url' href' absolute_url' parsed_url'
  proof -
    have sch': "scheme parsed_url' = ''http'' \<or> scheme parsed_url' = ''https''"
      and nl': "netloc parsed_url' \<noteq> []"
      and nonempty': "path parsed_url' \<noteq> []" and not_root': "path parsed_url' \<noteq> ''//''"
      using sch nl nonempty not_root other(3,4,5) by simp_all
    have "clean_absolute ip absolute_url' = clean_absolute ip absolute_url"
      unfolding shape [OF parse sch nl]
        clean_absolute_slash [OF other(2) sch' nl' nonempty' not_root'] other(3,4,5)
      by (rule refl)
    with abs other(1) show ?thesis
      by (simp add: clean_link_def)
  qed
  from first second show ?thesis by blast
qed

theorem query_dropped_unless_root_path_witness:
  "urljoin no_ip ''http://example.com/'' ''http://example.com/p?x=1''
     = Inr ''http://example.com/p?x=1'' \<and>
   urlparse no_ip ''http://example.com/p?x=1'' [] =
     Inr \<lparr>scheme = ''http'', netloc = ''example.com'', path = ''/p'', query = ''x=1'',
            fragment = [], params = []\<rparr> \<and>
   clean_link no_ip ''http://example.com/'' ''http://example.com/p?x=1''
     = Inr (Some ''http://example.com/p'') \<and>
   CHR ''?'' \<notin> set ''http://example.com/p'' \<and>
   clean_link no_ip ''http://example.com/'' ''http://example.com/p?x=2''
     = Inr (Some ''http://example.com/p'')"
proof -
  let ?one = "\<lparr>scheme = ''http'', netloc = ''example.com'', path = ''/p'', query = ''x=1'',
                fragment = [], params = []\<rparr>"
  let ?two = "\<lparr>scheme = ''http'', netloc = ''example.com'', path = ''/p'', query = ''x=2'',
                fragment = [], params = []\<rparr>"
  have join: "urljoin no_ip ''http://example.com/'' ''http://example.com/p?x=1''
                = Inr ''http://example.com/p?x=1''"
    by code_simp
  have parse: "urlparse no_ip ''http://example.com/p?x=1'' [] = Inr ?one"
    by code_simp
  have nonempty: "path ?one \<noteq> []" and not_root: "path ?one \<noteq> ''//''"
    by simp_all
  have clean: "clean_link no_ip ''http://example.com/'' ''http://example.com/p?x=1''
                 = Inr (Some ''http://example.com/p'')"
    by code_simp
  note th = query_dropped_unless_root_path [OF join parse nonempty not_root clean]
  have join2: "urljoin no_ip ''http://example.com/'' ''http://example.com/p?x=2''
                 = Inr ''http://example.com/p?x=2''"
    by code_simp
  have parse2: "urlparse no_ip ''http://example.com/p?x=2'' [] = Inr ?two"
    by code_simp
  have same: "scheme ?two = scheme ?one \<and> netloc ?two = netloc ?one \<and> path ?two = path ?one"
    by simp
  have other: "clean_link no_ip ''http://example.com/'' ''http://example.com/p?x=2''
                 = Inr (Some ''http://example.com/p'')"
    by (rule th [THEN conjunct2, THEN spec, THEN spec, THEN spec, THEN spec, THEN mp,
                 OF conjI [OF join2 conjI [OF parse2 same]]])
  show ?thesis
    by (rule conjI [OF join conjI [OF parse conjI [OF clean conjI [OF th [THEN conjunct1] other]]]])
qed

text \<open>
  C8: the code at an \<^verbatim>\<open>href\<close> whose cleaned URL has a path that starts with \<^verbatim>\<open>//\<close>.
  \<^verbatim>\<open>urljoin(absolute_url, parsed_url.path)\<close> parses the path on its own, where what follows
  \<^verbatim>\<open>//\<close> is a netloc: the line that the comment says removes the fragment replaces the host,
  and extracting the link it produced gives another URL, on another host.
\<close>

theorem clean_twice_changes_host:
  "clean_link no_ip ''http://example.com/'' ''http://example.com/.//b''
     = Inr (Some ''http://example.com//b'') \<and>
   clean_link no_ip ''http://example.com/'' ''http://example.com//b''
     = Inr (Some ''http://b'') \<and>
   clean_absolute no_ip ''http://example.com/.//b'' = Inr (Some ''http://example.com//b'') \<and>
   clean_absolute no_ip ''http://example.com//b'' = Inr (Some ''http://b'')"
  by code_simp

text \<open>
  Away from such paths the cleaning is idempotent: cleaning a cleaned URL returns it
  unchanged when neither the path of the URL nor the path of the cleaned URL starts with
  \<^verbatim>\<open>//\<close>. When the path of the URL is not empty either, extracting the cleaned URL as a
  link of any page (whose URL parses) returns it unchanged too.
\<close>

lemma clean_twice_single_slash:
  assumes parse: "urlparse ip absolute_url [] = Inr parsed_url"
      and single: "take 2 (path parsed_url) \<noteq> ''//''"
      and clean: "clean_absolute ip absolute_url = Inr (Some clean_url)"
      and parse': "urlparse ip clean_url [] = Inr parsed_clean"
      and single': "take 2 (path parsed_clean) \<noteq> ''//''"
  shows "clean_absolute ip clean_url = Inr (Some clean_url) \<and>
         (path parsed_url \<noteq> [] \<longrightarrow>
            clean_link ip [] clean_url = Inr (Some clean_url) \<and>
            (\<forall>url b. urlparse ip url [] = Inr b \<longrightarrow>
               clean_link ip url clean_url = Inr (Some clean_url)))"
proof (cases "path parsed_url = []")
  case True
  from clean have "urljoin ip absolute_url [] = Inr clean_url"
    by (auto simp: clean_absolute_def parse True split: if_splits sum.splits)
  then have "clean_url = absolute_url"
    by (auto simp: urljoin_def split: if_splits)
  with clean True show ?thesis by simp
next
  case False
  let ?P = "path parsed_url"
  let ?sch = "scheme parsed_url"
  let ?n = "netloc parsed_url"
  let ?Y = "rooted (resolve_path ?P ?P)"
  from clean have sch: "?sch = ''http'' \<or> ?sch = ''https''" and nl: "?n \<noteq> []"
    by (auto simp: clean_absolute_def parse split: if_splits)
  have P: "slash_path ?P"
    by (rule accepted_path [OF parse sch nl False])
  have c: "clean_url = ?sch @ ''://'' @ ?n @ ?Y"
    using clean clean_absolute_single [OF parse sch nl False single] by simp
  from rooted_resolve_shape [OF P, of ?P] obtain R
    where Y: "?Y = str_join ''/'' R" and len: "2 \<le> length R" and hd: "hd R = []"
      and segs: "\<forall>w\<in>set R. CHR ''/'' \<notin> set w \<and> w \<noteq> ''.'' \<and> w \<noteq> ''..'' \<and> set w \<subseteq> set ?P"
      and semi: "CHR '';'' \<notin> set (last R)"
    by blast
  have chars: "\<forall>w\<in>set R. CHR ''/'' \<notin> set w \<and> (\<forall>x\<in>set w. path_char x)"
    using segs P unfolding slash_path_def by blast
  have dots: "\<forall>w\<in>set R. CHR ''/'' \<notin> set w \<and> w \<noteq> ''.'' \<and> w \<noteq> ''..''"
    using segs by blast
  have slashY: "slash_path ?Y"
    unfolding Y by (rule joined_slash_path [OF len hd chars semi])
  note netloc = accepted_netloc [OF parse nl]
  have parsed_clean: "parsed_clean =
      \<lparr>scheme = ?sch, netloc = ?n, path = ?Y, query = [], fragment = [], params = []\<rparr>"
    using parse' urlparse_clean_form [OF sch netloc slashY, of "[]"] unfolding c by simp
  have sch': "scheme parsed_clean = ''http'' \<or> scheme parsed_clean = ''https''"
    and nl': "netloc parsed_clean \<noteq> []" and nonempty': "path parsed_clean \<noteq> []"
    using sch nl slash_path_facts(1) [OF slashY] by (simp_all add: parsed_clean)
  have fixed: "resolve_path ?Y ?Y = ?Y"
    unfolding Y by (rule joined_fixed [OF len hd dots])
  have rooted: "rooted ?Y = ?Y"
    using slash_path_facts(1,2) [OF slashY] by (cases ?Y) (simp_all add: rooted_def)
  have again: "clean_absolute ip clean_url = Inr (Some clean_url)"
    using clean_absolute_single [OF parse' sch' nl' nonempty' single']
    by (simp add: parsed_clean fixed rooted c)
  have link: "clean_link ip url clean_url = Inr (Some clean_url)"
    if "urlparse ip url [] = Inr b" for url b
    using urljoin_clean_form [OF sch netloc(1) nl netloc(2) slashY that] again
    by (simp add: clean_link_def c)
  have "clean_link ip [] clean_url = Inr (Some clean_url)"
    using again by (simp add: clean_link_def urljoin_def)
  with again link show ?thesis by blast
qed

lemma clean_twice_single_slash_example:
  "clean_absolute no_ip ''http://example.com/a/../b/./c;v=1?x=2#top''
     = Inr (Some ''http://example.com/b/c'') \<and>
   clean_absolute no_ip ''http://example.com/b/c'' = Inr (Some ''http://example.com/b/c'') \<and>
   clean_link no_ip ''https://other.org/dir/page'' ''http://example.com/b/c''
     = Inr (Some ''http://example.com/b/c'')"
proof -
  let ?raw = "\<lparr>scheme = ''http'', netloc = ''example.com'', path = ''/a/../b/./c'',
                query = ''x=2'', fragment = ''top'', params = ''v=1''\<rparr>"
  let ?cleaned = "\<lparr>scheme = ''http'', netloc = ''example.com'', path = ''/b/c'',
                    query = [], fragment = [], params = []\<rparr>"
  let ?page = "\<lparr>scheme = ''https'', netloc = ''other.org'', path = ''/dir/page'',
                 query = [], fragment = [], params = []\<rparr>"
  have parse: "urlparse no_ip ''http://example.com/a/../b/./c;v=1?x=2#top'' [] = Inr ?raw"
    by code_simp
  have single: "take 2 (path ?raw) \<noteq> ''//''"
    by simp
  have clean: "clean_absolute no_ip ''http://example.com/a/../b/./c;v=1?x=2#top''
                 = Inr (Some ''http://example.com/b/c'')"
    by code_simp
  have parse': "urlparse no_ip ''http://example.com/b/c'' [] = Inr ?cleaned"
    by code_simp
  have single': "take 2 (path ?cleaned) \<noteq> ''//''"
    by simp
  note th = clean_twice_single_slash [OF parse single clean parse' single']
  have nonempty: "path ?raw \<noteq> []"
    by simp
  have page: "urlparse no_ip ''https://other.org/dir/page'' [] = Inr ?page"
    by code_simp
  have link: "clean_link no_ip ''https://other.org/dir/page'' ''http://example.com/b/c''
                = Inr (Some ''http://example.com/b/c'')"
    by (rule th [THEN conjunct2, THEN mp, OF nonempty, THEN conjunct2, THEN spec, THEN spec,
                 THEN mp, OF page])
  show ?thesis
    by (rule conjI [OF clean conjI [OF th [THEN conjunct1] link]])
qed

section \<open>Properties of the crawl\<close>

lemma crawl_iterations_add:
  "crawl_iterations j e s = Inr s1 \<Longrightarrow>
   crawl_iterations (j + k) e s = crawl_iterations k e s1"
proof (induction j arbitrary: s)
  case 0
  then show ?case by simp
next
  case (Suc j)
  show ?case
  proof (cases "urls_to_visit s = []")
    case True
    with Suc.prems have "s1 = s" by simp
    with True show ?thesis by (cases k) simp_all
  next
    case False
    with Suc.prems obtain s' where it: "crawl_iteration e s = Inr s'"
      and rest: "crawl_iterations j e s' = Inr s1"
      by (auto split: sum.splits)
    from Suc.IH [OF rest] False it show ?thesis by simp
  qed
qed


lemma crawl_of_iterations:
  "crawl_iterations k e s = Inr s' \<Longrightarrow> urls_to_visit s' = [] \<Longrightarrow> crawl e s = Inr s'"
proof (induction k arbitrary: s)
  case 0
  then show ?case by (simp add: crawl.simps [of e s'])
next
  case (Suc k)
  show ?case
  proof (cases "urls_to_visit s = []")
    case True
    with Suc.prems show ?thesis by (auto simp: crawl.simps [of e s'])
  next
    case False
    with Suc.prems obtain s1 where it: "crawl_iteration e s = Inr s1"
      and rest: "crawl_iterations k e s1 = Inr s'"
      by (auto split: sum.splits)
    from Suc.IH [OF rest Suc.prems(2)] False it show ?thesis
      by (simp add: crawl.simps [of e s])
  qed
qed

text \<open>
  The log of requests and the visited set go together: every crawled URL is added to
  the set and requested once, in the same iteration.
\<close>

definition requests_match_visited :: "CrawlManager \<Rightarrow> bool" where
  "requests_match_visited s =
     (distinct (requests_made s) \<and> set (requests_made s) = visited_urls s)"

lemma requests_match_visited_init: "requests_match_visited (CrawlManager_init start max_d table)"
  by (simp add: requests_match_visited_def CrawlManager_init_def)

lemma requests_match_visited_iteration:
  assumes "requests_match_visited s" and "urls_to_visit s \<noteq> []"
      and "crawl_iteration e s = Inr s'"
  shows "requests_match_visited s'"
proof -
  obtain u d rest where q: "urls_to_visit s = (u, d) # rest"
    using assms(2) by (cases "urls_to_visit s") auto
  from crawl_iteration_cases [OF q assms(3)] assms(1) show ?thesis
    by (auto simp: requests_match_visited_def)
qed

lemma requests_match_visited_iterations:
  "requests_match_visited s \<Longrightarrow> crawl_iterations k e s = Inr s' \<Longrightarrow> requests_match_visited s'"
proof (induction k arbitrary: s)
  case 0
  then show ?case by simp
next
  case (Suc k)
  show ?case
  proof (cases "urls_to_visit s = []")
    case True
    with Suc.prems show ?thesis by simp
  next
    case False
    with Suc.prems obtain s1 where it: "crawl_iteration e s = Inr s1"
      and rest: "crawl_iterations k e s1 = Inr s'"
      by (auto split: sum.splits)
    from Suc.IH [OF requests_match_visited_iteration [OF Suc.prems(1) False it] rest]
    show ?thesis .
  qed
qed

lemma visited_grows_iteration:
  assumes "urls_to_visit s \<noteq> []" and "crawl_iteration e s = Inr s'"
  shows "visited_urls s \<subseteq> visited_urls s'"
proof -
  obtain u d rest where q: "urls_to_visit s = (u, d) # rest"
    using assms(1) by (cases "urls_to_visit s") auto
  from crawl_iteration_cases [OF q assms(2)] show ?thesis by auto
qed

lemma visited_grows_iterations:
  "crawl_iterations k e s = Inr s' \<Longrightarrow> visited_urls s \<subseteq> visited_urls s'"
proof (induction k arbitrary: s)
  case 0
  then show ?case by simp
next
  case (Suc k)
  show ?case
  proof (cases "urls_to_visit s = []")
    case True
    with Suc.prems show ?thesis by simp
  next
    case False
    with Suc.prems obtain s1 where it: "crawl_iteration e s = Inr s1"
      and rest: "crawl_iterations k e s1 = Inr s'"
      by (auto split: sum.splits)
    from visited_grows_iteration [OF False it] Suc.IH [OF rest] show ?thesis by blast
  qed
qed

lemma count_list_distinct: "distinct xs \<Longrightarrow> count_list xs x = (if x \<in> set xs then 1 else 0)"
  by (induction xs) auto

text \<open>
  C6. At every point of a crawl started by \<^verbatim>\<open>CrawlManager(start_url, max_depth, db_file)\<close>,
  whatever the pages contain and however often a URL was enqueued, \<^verbatim>\<open>requests.get\<close> has
  been called at most once for each URL.
\<close>

theorem each_url_fetched_at_most_once:
  assumes "crawl_iterations k e (CrawlManager_init start max_d table) = Inr s"
  shows "count_list (requests_made s) url \<le> 1"
proof -
  have "requests_match_visited s"
    using requests_match_visited_iterations [OF requests_match_visited_init assms] .
  then show ?thesis
    by (simp add: requests_match_visited_def count_list_distinct)
qed

text \<open>
  C3 (as amended). In one iteration the visited set stays as it is or gains the
  dequeued URL, which was not in it; an entry whose URL is visited already is dropped
  without a request and without enqueuing anything; and every entry the iteration
  appends to the queue has a URL outside the visited set.
\<close>

theorem visited_once_enqueue_unvisited:
  assumes "urls_to_visit s = (u, d) # rest" and "crawl_iteration e s = Inr s'"
  shows "(if u \<in> visited_urls s
          then visited_urls s' = visited_urls s \<and> urls_to_visit s' = rest \<and>
               requests_made s' = requests_made s
          else visited_urls s' = visited_urls s \<or> visited_urls s' = insert u (visited_urls s)) \<and>
         take (length rest) (urls_to_visit s') = rest \<and>
         fst ` set (drop (length rest) (urls_to_visit s')) \<inter> visited_urls s' = {}"
  using crawl_iteration_cases [OF assms] by auto








text \<open>
  C4 (as amended). There is no retry: when the request for a dequeued URL fails, that one
  request is the only one the crawl ever makes for the URL, which stays in the visited
  set, whatever later requests would have returned.
\<close>

theorem failed_fetch_is_final:
  assumes "crawl_iterations k e (CrawlManager_init start max_d table) = Inr s"
      and "urls_to_visit s = (u, d) # rest"
      and "u \<notin> visited_urls s" and "d \<le> max_depth s"
      and "requests_get e (length (requests_made s)) u = RequestException"
      and "crawl_iterations (Suc j) e s = Inr s'"
  shows "get_links_from_page e (length (requests_made s)) u = Inr [] \<and>
         count_list (requests_made s') u = 1 \<and> u \<in> visited_urls s'"
proof -
  have links: "get_links_from_page e (length (requests_made s)) u = Inr []"
    using assms(5) by (simp add: get_links_from_page_def)
  from assms(2,6) obtain s1 where it: "crawl_iteration e s = Inr s1"
    and rest: "crawl_iterations j e s1 = Inr s'"
    by (auto split: sum.splits)
  from crawl_iteration_cases [OF assms(2) it] assms(3,4)
  have "u \<in> visited_urls s1" by auto
  with visited_grows_iterations [OF rest] have visited: "u \<in> visited_urls s'" by blast
  have "requests_match_visited s"
    using requests_match_visited_iterations [OF requests_match_visited_init assms(1)] .
  then have "requests_match_visited s'"
    using requests_match_visited_iterations [OF _ assms(6)] by blast
  with visited have "count_list (requests_made s') u = 1"
    by (simp add: requests_match_visited_def count_list_distinct)
  with links visited show ?thesis by simp
qed

section \<open>The rows of a crawl assemble to consistent depths\<close>

lemma depth_of_has_node: "depth_of g n = Some f \<Longrightarrow> has_node g n"
  by (auto simp: depth_of_def has_node_def domIff dom_map_of_conv_image_fst [symmetric]
      split: option.splits)

lemma populate_append: "populate (rows @ new) = foldl add_row (populate rows) new"
  by (simp add: populate_def)

lemma depth_of_populate_old:
  "has_node (populate rows) n \<Longrightarrow> depth_of (populate (rows @ new)) n = depth_of (populate rows) n"
  by (simp add: populate_append depth_of_foldl_old)

lemma depth_of_new_link:
  "\<not> has_node g n \<Longrightarrow> n \<noteq> u \<Longrightarrow> n \<in> set links \<Longrightarrow>
   depth_of (foldl add_row g (map (\<lambda>l. (u, l, Some d)) links)) n = Some (d + 1)"
proof (induction links arbitrary: g)
  case Nil
  then show ?case by simp
next
  case (Cons l links)
  show ?case
  proof (cases "l = n")
    case True
    have "depth_of (add_row g (u, n, Some d)) n = Some (d + 1)"
      using depth_of_add_row_new [of g n u n "Some d"] Cons.prems(1,2)
      by (simp add: row_depth_def)
    moreover have "has_node (add_row g (u, n, Some d)) n"
      by (simp add: has_node_add_row)
    ultimately show ?thesis
      by (simp add: True depth_of_foldl_old)
  next
    case False
    then have "\<not> has_node (add_row g (u, l, Some d)) n"
      using Cons.prems(1,2) by (simp add: has_node_add_row)
    moreover have "n \<in> set links" using Cons.prems(3) False by simp
    ultimately show ?thesis
      using Cons.IH [of "add_row g (u, l, Some d)"] Cons.prems(2) by simp
  qed
qed

lemma has_node_new_rows:
  "has_node (populate (rows @ map (\<lambda>l. (u, l, Some d)) links)) n =
     (has_node (populate rows) n \<or> links \<noteq> [] \<and> (n = u \<or> n \<in> set links))"
proof -
  have "(\<exists>r\<in>set (map (\<lambda>l. (u, l, Some d)) links). mentions r n) =
          (links \<noteq> [] \<and> (n = u \<or> n \<in> set links))"
    by (cases links) (auto simp: mentions_def)
  then show ?thesis
    by (simp only: populate_append has_node_foldl)
qed

lemma depth_of_empty: "depth_of DiGraph_empty n = None"
  by (simp add: depth_of_def DiGraph_empty_def)

lemma bfs_inv_init: "bfs_inv start M {} [(start, 0)] []"
  by (simp add: bfs_inv_def queue_ordered_def rows_ordered_def start_first_def
      queued_at_first_mention_def sources_consistent_def populate_def depth_of_empty)

lemma queue_ordered_skip: "queue_ordered (p # rest) \<Longrightarrow> queue_ordered rest"
  by (simp add: queue_ordered_def)

lemma queue_ordered_visit:
  assumes "queue_ordered ((u, d) # rest)"
  shows "queue_ordered (rest @ map (\<lambda>l. (l, d + 1)) new)"
proof -
  define Q where "Q = rest @ map (\<lambda>l. (l, d + 1)) new"
  have lo: "\<forall>p\<in>set rest. d \<le> snd p" and hi: "\<forall>p\<in>set rest. snd p \<le> d + 1"
    and so: "sorted (map snd rest)" and nn: "0 \<le> d"
    using assms by (auto simp: queue_ordered_def)
  have "\<forall>x\<in>set (map snd rest). \<forall>y\<in>set (map snd (map (\<lambda>l. (l, d + 1)) new)). x \<le> y"
    using hi by auto
  moreover have "sorted (map snd (map (\<lambda>l. (l, d + 1)) new))"
    by (induction new) auto
  ultimately have s: "sorted (map snd Q)"
    unfolding Q_def map_append sorted_append using so by blast
  have b: "d \<le> snd p \<and> snd p \<le> d + 1" if "p \<in> set Q" for p
    using that lo hi by (auto simp: Q_def)
  have n: "\<forall>p\<in>set Q. 0 \<le> snd p"
  proof
    fix p assume "p \<in> set Q"
    from b [OF this] nn show "0 \<le> snd p" by linarith
  qed
  have w: "\<forall>p\<in>set Q. \<forall>p'\<in>set Q. snd p' \<le> snd p + 1"
  proof (intro ballI)
    fix p p' assume "p \<in> set Q" and "p' \<in> set Q"
    from b [OF this(1)] b [OF this(2)] show "snd p' \<le> snd p + 1" by linarith
  qed
  have "queue_ordered Q"
    unfolding queue_ordered_def using s n w by (intro conjI)
  then show ?thesis by (simp only: Q_def)
qed

lemma rows_ordered_skip: "rows_ordered (p # rest) rows \<Longrightarrow> rows_ordered rest rows"
  by (simp add: rows_ordered_def)

lemma rows_ordered_visit:
  assumes q: "queue_ordered ((u, d) # rest)" and r: "rows_ordered ((u, d) # rest) rows"
  shows "rows_ordered (rest @ map (\<lambda>l. (l, d + 1)) new) (rows @ map (\<lambda>l. (u, l, Some d)) links)"
proof -
  define Q where "Q = rest @ map (\<lambda>l. (l, d + 1)) new"
  define R where "R = rows @ map (\<lambda>l. (u, l, Some d)) links"
  have lo: "\<forall>p\<in>set rest. d \<le> snd p" and nn: "0 \<le> d"
    using q by (auto simp: queue_ordered_def)
  have so: "sorted (map row_depth rows)" and rn: "\<forall>r\<in>set rows. 0 \<le> row_depth r"
    and rd: "\<forall>r\<in>set rows. row_depth r \<le> d"
    using r by (auto simp: rows_ordered_def)
  have "\<forall>x\<in>set (map row_depth rows).
          \<forall>y\<in>set (map row_depth (map (\<lambda>l. (u, l, Some d)) links)). x \<le> y"
    using rd by (auto simp: row_depth_def)
  moreover have "sorted (map row_depth (map (\<lambda>l. (u, l, Some d)) links))"
    by (induction links) (auto simp: row_depth_def)
  ultimately have s: "sorted (map row_depth R)"
    unfolding R_def map_append sorted_append using so by blast
  have b: "0 \<le> row_depth x \<and> row_depth x \<le> d" if "x \<in> set R" for x
    using that rn rd nn by (auto simp: R_def row_depth_def)
  have c: "d \<le> snd p" if "p \<in> set Q" for p
    using that lo by (auto simp: Q_def)
  have n: "\<forall>x\<in>set R. 0 \<le> row_depth x"
    using b by blast
  have w: "\<forall>x\<in>set R. \<forall>p\<in>set Q. row_depth x \<le> snd p"
  proof (intro ballI)
    fix x p assume "x \<in> set R" and "p \<in> set Q"
    from b [OF this(1)] c [OF this(2)] show "row_depth x \<le> snd p" by linarith
  qed
  have "rows_ordered Q R"
    unfolding rows_ordered_def using s n w by (intro conjI)
  then show ?thesis by (simp only: Q_def R_def)
qed

lemma start_first_skip: "start_first start V (p # rest) rows \<Longrightarrow> start_first start V rest rows"
  by (auto simp: start_first_def)

lemma start_first_visit:
  assumes inv: "start_first start V ((u, d) # rest) rows" and new: "u \<notin> V"
  shows "start_first start (insert u V) Q (rows @ map (\<lambda>l. (u, l, Some d)) links)"
proof -
  have first: "start \<in> insert u V"
    using inv by (auto simp: start_first_def)
  have old: "\<forall>r\<in>set rows. fst r = start \<longrightarrow> row_depth r = 0"
    using inv by (simp add: start_first_def)
  have "d = 0" if "u = start"
    using inv new that by (auto simp: start_first_def)
  then have "\<forall>r\<in>set (map (\<lambda>l. (u, l, Some d)) links). fst r = start \<longrightarrow> row_depth r = 0"
    by (auto simp: row_depth_def)
  with old have "\<forall>r\<in>set (rows @ map (\<lambda>l. (u, l, Some d)) links). fst r = start \<longrightarrow> row_depth r = 0"
    unfolding set_append by blast
  with first show ?thesis
    unfolding start_first_def by blast
qed

lemma map_of_const: "map_of (map (\<lambda>l. (l, c)) xs) n = (if n \<in> set xs then Some c else None)"
  by (induction xs) auto

lemma depth_of_new_source:
  assumes "\<not> has_node g u" and "links \<noteq> []"
  shows "depth_of (foldl add_row g (map (\<lambda>l. (u, l, Some d)) links)) u = Some d"
proof -
  obtain l ls where links: "links = l # ls"
    using assms(2) by (cases links) auto
  have "depth_of (add_row g (u, l, Some d)) u = Some d"
    using depth_of_add_row_new [of g u u l "Some d"] assms(1) by (simp add: row_depth_def)
  moreover have "has_node (add_row g (u, l, Some d)) u"
    by (simp add: has_node_add_row)
  ultimately show ?thesis
    by (simp add: links depth_of_foldl_old)
qed

lemma populate_depth_total:
  assumes "sorted (map row_depth rows)" and "has_node (populate rows) n"
  shows "\<exists>f. depth_of (populate rows) n = Some f"
proof -
  from assms(2) have "\<exists>r\<in>set rows. mentions r n" by (simp add: has_node_populate)
  from first_mention_bound [OF assms(1) has_node_empty this] show ?thesis
    unfolding populate_def by blast
qed

lemma queued_head_too_deep:
  assumes inv: "queued_at_first_mention start M V ((u, d) # rest) rows"
      and new: "u \<notin> V" "u \<noteq> start" and deep: "M < d"
      and f: "depth_of (populate rows) u = Some f"
  shows "M < f"
proof -
  have "map_of ((u, d) # rest) u = Some d" by simp
  with inv new f have "d \<le> f \<or> M < f"
    unfolding queued_at_first_mention_def by blast
  with deep show ?thesis by auto
qed

lemma queued_at_first_mention_skip:
  assumes inv: "queued_at_first_mention start M V ((u, d) # rest) rows"
      and skip: "u \<in> V \<or> M < d"
  shows "queued_at_first_mention start M V rest rows"
  unfolding queued_at_first_mention_def
proof (intro conjI allI impI)
  fix n k f
  assume n: "n \<notin> V" "n \<noteq> start" and k: "map_of rest n = Some k"
    and f: "depth_of (populate rows) n = Some f"
  show "k \<le> f \<or> M < f"
  proof (cases "n = u")
    case True
    with n skip have "M < d" by blast
    from queued_head_too_deep [OF inv] n True this f show ?thesis by blast
  next
    case False
    then have "map_of ((u, d) # rest) n = Some k" using k by simp
    with inv n f show ?thesis
      unfolding queued_at_first_mention_def by blast
  qed
next
  fix n f
  assume n: "n \<notin> V" "n \<noteq> start" and out: "n \<notin> fst ` set rest"
    and f: "depth_of (populate rows) n = Some f"
  show "M < f"
  proof (cases "n = u")
    case True
    with n skip have "M < d" by blast
    from queued_head_too_deep [OF inv] n True this f show ?thesis by blast
  next
    case False
    with out have "n \<notin> fst ` set ((u, d) # rest)" by simp
    with inv f n show ?thesis
      unfolding queued_at_first_mention_def by blast
  qed
qed

lemma queued_at_first_mention_visit:
  assumes inv: "queued_at_first_mention start M V ((u, d) # rest) rows"
      and qo: "queue_ordered ((u, d) # rest)"
      and sub: "set ins \<subseteq> set links"
  shows "queued_at_first_mention start M (insert u V)
           (rest @ map (\<lambda>l. (l, d + 1)) (filter (\<lambda>l. l \<noteq> u \<and> l \<notin> V) links))
           (rows @ map (\<lambda>l. (u, l, Some d)) ins)"
proof -
  define new where "new = map (\<lambda>l. (l, d + 1)) (filter (\<lambda>l. l \<noteq> u \<and> l \<notin> V) links)"
  define R where "R = rows @ map (\<lambda>l. (u, l, Some d)) ins"
  have kept: "depth_of (populate R) n = depth_of (populate rows) n"
    if "has_node (populate rows) n" for n
    using that by (simp add: R_def depth_of_populate_old)
  have fresh: "depth_of (populate R) n = Some (d + 1)"
    if "\<not> has_node (populate rows) n" "n \<noteq> u" "n \<in> set ins" for n
    using that by (simp add: R_def populate_append depth_of_new_link)
  have nodes_R: "has_node (populate R) n \<Longrightarrow> n \<noteq> u \<Longrightarrow> has_node (populate rows) n \<or> n \<in> set ins"
    for n
    by (auto simp: R_def has_node_new_rows)
  have in_new: "n \<in> fst ` set new \<longleftrightarrow> n \<in> set links \<and> n \<noteq> u \<and> n \<notin> V" for n
    by (auto simp: new_def image_iff)
  have map_new: "map_of new n = Some k \<Longrightarrow> k = d + 1" for n k
    by (auto simp: new_def map_of_const split: if_splits)
  have span: "k \<le> d + 1" if "map_of rest n = Some k" for n k
  proof -
    from that have "(n, k) \<in> set ((u, d) # rest)" by (auto dest: map_of_SomeD)
    moreover have "(u, d) \<in> set ((u, d) # rest)" by simp
    ultimately have "snd (n, k) \<le> snd (u, d) + 1"
      using qo unfolding queue_ordered_def by blast
    then show ?thesis by simp
  qed
  have old_unqueued: "M < f"
    if "depth_of (populate rows) n = Some f" "n \<notin> V" "n \<noteq> start" "n \<noteq> u" "n \<notin> fst ` set rest"
    for n f
  proof -
    from that(4,5) have "n \<notin> fst ` set ((u, d) # rest)" by simp
    with inv that(1-3) show ?thesis
      unfolding queued_at_first_mention_def by blast
  qed
  have "queued_at_first_mention start M (insert u V) (rest @ new) R"
    unfolding queued_at_first_mention_def
  proof (intro conjI allI impI)
    fix n k f
    assume n: "n \<notin> insert u V" "n \<noteq> start" and k: "map_of (rest @ new) n = Some k"
      and f: "depth_of (populate R) n = Some f"
    then have nu: "n \<noteq> u" and nV: "n \<notin> V" by auto
    have bound: "k \<le> d + 1"
    proof (cases "map_of rest n")
      case (Some k')
      with k have "k' = k" by (simp add: map_of_append map_add_def)
      with Some span show ?thesis by blast
    next
      case None
      with k have "map_of new n = Some k" by (simp add: map_of_append map_add_def)
      from map_new [OF this] show ?thesis by simp
    qed
    show "k \<le> f \<or> M < f"
    proof (cases "has_node (populate rows) n")
      case True
      from kept [OF True] f have f': "depth_of (populate rows) n = Some f" by simp
      show ?thesis
      proof (cases "map_of rest n")
        case (Some k')
        with k have "k' = k" by (simp add: map_of_append map_add_def)
        with Some nu have "map_of ((u, d) # rest) n = Some k" by simp
        with inv nV n(2) f' show ?thesis
          unfolding queued_at_first_mention_def by blast
      next
        case None
        then have "n \<notin> fst ` set rest" by (simp add: map_of_eq_None_iff)
        from old_unqueued [OF f' nV n(2) nu this] show ?thesis by simp
      qed
    next
      case False
      from f have "has_node (populate R) n" by (rule depth_of_has_node)
      from nodes_R [OF this nu] False have "n \<in> set ins" by blast
      from fresh [OF False nu this] f have "f = d + 1" by simp
      with bound show ?thesis by simp
    qed
  next
    fix n f
    assume n: "n \<notin> insert u V" "n \<noteq> start" and out: "n \<notin> fst ` set (rest @ new)"
      and f: "depth_of (populate R) n = Some f"
    then have nu: "n \<noteq> u" and nV: "n \<notin> V" by auto
    from out have o1: "n \<notin> fst ` set rest" and o2: "n \<notin> fst ` set new" by auto
    from o2 nu nV have "n \<notin> set links" by (simp add: in_new)
    with sub have ni: "n \<notin> set ins" by blast
    from f have "has_node (populate R) n" by (rule depth_of_has_node)
    from nodes_R [OF this nu] ni have old: "has_node (populate rows) n" by blast
    from kept [OF old] f have "depth_of (populate rows) n = Some f" by simp
    from old_unqueued [OF this nV n(2) nu o1] show "M < f" .
  qed
  then show ?thesis by (simp only: new_def R_def)
qed

lemma sources_consistent_visit:
  assumes src: "sources_consistent start rows"
      and inv: "queued_at_first_mention start M V ((u, d) # rest) rows"
      and ro: "rows_ordered ((u, d) # rest) rows"
      and new: "u \<notin> V" and shallow: "d \<le> M"
  shows "sources_consistent start (rows @ map (\<lambda>l. (u, l, Some d)) ins)"
proof -
  define R where "R = rows @ map (\<lambda>l. (u, l, Some d)) ins"
  have so: "sorted (map row_depth rows)"
    using ro by (simp add: rows_ordered_def)
  have kept: "depth_of (populate R) n = depth_of (populate rows) n"
    if "has_node (populate rows) n" for n
    using that by (simp add: R_def depth_of_populate_old)
  have "\<exists>f. depth_of (populate R) (fst r) = Some f \<and> row_depth r \<le> f"
    if r: "r \<in> set R" and ns: "fst r \<noteq> start" for r
  proof (cases "r \<in> set rows")
    case True
    with src ns obtain f where f: "depth_of (populate rows) (fst r) = Some f" "row_depth r \<le> f"
      unfolding sources_consistent_def by blast
    from f(1) have "has_node (populate rows) (fst r)" by (rule depth_of_has_node)
    from kept [OF this] f show ?thesis by simp
  next
    case False
    with r have fr: "fst r = u" and dr: "row_depth r = d" and some: "ins \<noteq> []"
      by (auto simp: R_def row_depth_def)
    show ?thesis
    proof (cases "has_node (populate rows) u")
      case True
      from populate_depth_total [OF so True] obtain f
        where f: "depth_of (populate rows) u = Some f" by blast
      have "map_of ((u, d) # rest) u = Some d" by simp
      with inv new ns fr f have "d \<le> f \<or> M < f"
        unfolding queued_at_first_mention_def by blast
      with kept [OF True] f shallow fr dr show ?thesis by auto
    next
      case False
      from depth_of_new_source [OF False some]
      have "depth_of (populate R) u = Some d"
        by (simp add: R_def populate_append)
      with fr dr show ?thesis by simp
    qed
  qed
  then have "sources_consistent start R"
    unfolding sources_consistent_def by blast
  then show ?thesis by (simp only: R_def)
qed

lemma bfs_inv_skip:
  assumes "bfs_inv start M V ((u, d) # rest) rows" and "u \<in> V \<or> M < d"
  shows "bfs_inv start M V rest rows"
  using assms queue_ordered_skip [of "(u, d)" rest] rows_ordered_skip [of "(u, d)" rest rows]
    start_first_skip [of start V "(u, d)" rest rows]
    queued_at_first_mention_skip [of start M V u d rest rows]
  unfolding bfs_inv_def by blast

lemma bfs_inv_visit:
  assumes inv: "bfs_inv start M V ((u, d) # rest) rows" and new: "u \<notin> V" and shallow: "d \<le> M"
      and sub: "set ins \<subseteq> set links"
  shows "bfs_inv start M (insert u V)
           (rest @ map (\<lambda>l. (l, d + 1)) (filter (\<lambda>l. l \<noteq> u \<and> l \<notin> V) links))
           (rows @ map (\<lambda>l. (u, l, Some d)) ins)"
proof -
  from inv have q: "queue_ordered ((u, d) # rest)" and r: "rows_ordered ((u, d) # rest) rows"
    and s: "start_first start V ((u, d) # rest) rows"
    and m: "queued_at_first_mention start M V ((u, d) # rest) rows"
    and c: "sources_consistent start rows"
    unfolding bfs_inv_def by blast+
  show ?thesis
    unfolding bfs_inv_def
    using queue_ordered_visit [OF q] rows_ordered_visit [OF q r] start_first_visit [OF s new]
      queued_at_first_mention_visit [OF m q sub] sources_consistent_visit [OF c m r new shallow]
    by (intro conjI)
qed

text \<open>The invariant, of the states of the manager.\<close>

lemma bfs_inv_iteration:
  assumes busy: "urls_to_visit s \<noteq> []"
      and it: "crawl_iteration e s = Inr s'"
      and inv: "bfs_inv start (max_depth s) (visited_urls s) (urls_to_visit s) (website_links s)"
  shows "max_depth s' = max_depth s \<and>
         bfs_inv start (max_depth s') (visited_urls s') (urls_to_visit s') (website_links s')"
proof -
  obtain u d rest where q: "urls_to_visit s = (u, d) # rest"
    using busy by (cases "urls_to_visit s") auto
  from crawl_iteration_cases [OF q it]
  consider (skip) "u \<in> visited_urls s \<or> max_depth s < d" "s' = s\<lparr>urls_to_visit := rest\<rparr>"
    | (visit) links where "u \<notin> visited_urls s" "d \<le> max_depth s"
        "max_depth s' = max_depth s" "visited_urls s' = insert u (visited_urls s)"
        "urls_to_visit s' =
           rest @ map (\<lambda>l. (l, d + 1)) (filter (\<lambda>l. l \<noteq> u \<and> l \<notin> visited_urls s) links)"
        "website_links s' =
           website_links s @
             (if executemany_ok e (length (requests_made s))
              then map (\<lambda>l. (u, l, Some d)) links else [])"
    by blast
  then show ?thesis
  proof cases
    case skip
    from bfs_inv_skip [OF inv [unfolded q] skip(1)] show ?thesis
      by (simp add: skip(2))
  next
    case visit
    define ins where "ins = (if executemany_ok e (length (requests_made s)) then links else [])"
    have sub: "set ins \<subseteq> set links" by (auto simp: ins_def)
    have "website_links s' = website_links s @ map (\<lambda>l. (u, l, Some d)) ins"
      using visit(6) by (simp add: ins_def)
    with bfs_inv_visit [OF inv [unfolded q] visit(1,2) sub] visit(3,4,5)
    show ?thesis by simp
  qed
qed

lemma bfs_inv_iterations:
  "crawl_iterations k e s = Inr s' \<Longrightarrow>
         bfs_inv start (max_depth s) (visited_urls s) (urls_to_visit s) (website_links s) \<Longrightarrow>
         bfs_inv start (max_depth s') (visited_urls s') (urls_to_visit s') (website_links s')"
proof (induction k arbitrary: s)
  case 0
  then show ?case by simp
next
  case (Suc k)
  show ?case
  proof (cases "urls_to_visit s = []")
    case True
    with Suc.prems show ?thesis by simp
  next
    case False
    with Suc.prems(1) obtain s1 where it: "crawl_iteration e s = Inr s1"
      and rest: "crawl_iterations k e s1 = Inr s'"
      by (auto split: sum.splits)
    from bfs_inv_iteration [OF False it Suc.prems(2)]
    have "bfs_inv start (max_depth s1) (visited_urls s1) (urls_to_visit s1) (website_links s1)"
      by (rule conjunct2)
    from Suc.IH [OF rest this] show ?thesis .
  qed
qed

lemma bfs_inv_rows:
  assumes "bfs_inv start M V q rows"
  shows "sorted (map row_depth rows)"
    and "\<forall>r\<in>set rows. 0 \<le> row_depth r"
    and "\<forall>r\<in>set rows. \<exists>ds. depth_of (build_graph rows start) (fst r) = Some ds \<and> row_depth r \<le> ds"
proof -
  from assms have r: "rows_ordered q rows" and s: "start_first start V q rows"
    and c: "sources_consistent start rows"
    unfolding bfs_inv_def by blast+
  from r show "sorted (map row_depth rows)" and "\<forall>r\<in>set rows. 0 \<le> row_depth r"
    by (simp_all add: rows_ordered_def)
  show "\<forall>r\<in>set rows. \<exists>ds. depth_of (build_graph rows start) (fst r) = Some ds \<and> row_depth r \<le> ds"
  proof
    fix r assume r: "r \<in> set rows"
    show "\<exists>ds. depth_of (build_graph rows start) (fst r) = Some ds \<and> row_depth r \<le> ds"
    proof (cases "fst r = start")
      case True
      have "mentions r start" using True by (cases r) (simp add: mentions_def)
      with r have "has_node (populate rows) start" by (auto simp: has_node_populate)
      moreover have "row_depth r = 0" using s r True by (simp add: start_first_def)
      ultimately show ?thesis by (simp add: True depth_of_build_graph)
    next
      case False
      with c r show ?thesis
        by (simp add: sources_consistent_def depth_of_build_graph)
    qed
  qed
qed

text \<open>
  On the rows that a crawl has inserted into an empty table, read back in insertion
  order and assembled for the start URL of the crawl, the depths are consistent: the
  start node has depth 0 when it is a node, and on every edge both endpoints carry a
  depth, the target's at most the source's plus one. This holds after any number of
  iterations of the crawl loop, and whether or not every insert succeeded.
\<close>

lemma crawl_rows_depth_step:
  assumes "crawl_iterations k e (CrawlManager_init start max_d []) = Inr s"
  shows "(has_node (build_graph (website_links s) start) start \<longrightarrow>
            depth_of (build_graph (website_links s) start) start = Some 0) \<and>
         depth_step_ok (build_graph (website_links s) start)"
proof -
  have "bfs_inv start max_d {} [(start, 0)] []" by (rule bfs_inv_init)
  then have "bfs_inv start (max_depth (CrawlManager_init start max_d []))
               (visited_urls (CrawlManager_init start max_d []))
               (urls_to_visit (CrawlManager_init start max_d []))
               (website_links (CrawlManager_init start max_d []))"
    by (simp add: CrawlManager_init_def)
  from bfs_inv_iterations [OF assms this]
  have inv: "bfs_inv start (max_depth s) (visited_urls s) (urls_to_visit s) (website_links s)" .
  from ordered_rows_depth_step [OF bfs_inv_rows [OF inv]]
  have "depth_step_ok (build_graph (website_links s) start)" .
  moreover have "has_node (build_graph (website_links s) start) start \<longrightarrow>
            depth_of (build_graph (website_links s) start) start = Some 0"
    using start_depth_zero [of "website_links s" start] by blast
  ultimately show ?thesis by blast
qed

section \<open>The crawl on the example sites\<close>

lemma abcd_crawl:
  "crawl (site abcd_pages) (CrawlManager_init ''http://example.com/a'' 1 []) = Inr abcd_final"
proof -
  have "crawl_iterations 4 (site abcd_pages) (CrawlManager_init ''http://example.com/a'' 1 [])
          = Inr abcd_final"
    by code_simp
  moreover have "urls_to_visit abcd_final = []"
    by (simp add: abcd_final_def)
  ultimately show ?thesis by (rule crawl_of_iterations)
qed

text \<open>
  C2 (as stated) fails: with \<^verbatim>\<open>max_depth = 1\<close> the graph of the crawl is not the one with
  nodes \<^verbatim>\<open>a\<close>, \<^verbatim>\<open>b\<close>, \<^verbatim>\<open>c\<close> and edges \<^verbatim>\<open>(a,b)\<close>, \<^verbatim>\<open>(a,c)\<close>.
\<close>

theorem depth_two_leaf_counterexample:
  "crawl (site abcd_pages) (CrawlManager_init ''http://example.com/a'' 1 []) = Inr abcd_final \<and>
   \<not> (graph_nodes (graph abcd_final) =
          {''http://example.com/a'', ''http://example.com/b'', ''http://example.com/c''} \<and>
       graph_edges (graph abcd_final) =
          {(''http://example.com/a'', ''http://example.com/b''),
           (''http://example.com/a'', ''http://example.com/c'')})"
proof -
  have present: "''http://example.com/d'' \<in> graph_nodes (graph abcd_final)"
    by (simp add: graph_nodes_def abcd_final_def)
  have other: "''http://example.com/d'' \<notin>
          {''http://example.com/a'', ''http://example.com/b'', ''http://example.com/c''}"
    by simp
  have "graph_nodes (graph abcd_final) \<noteq>
          {''http://example.com/a'', ''http://example.com/b'', ''http://example.com/c''}"
  proof
    assume same: "graph_nodes (graph abcd_final) =
          {''http://example.com/a'', ''http://example.com/b'', ''http://example.com/c''}"
    from present have "''http://example.com/d'' \<in>
          {''http://example.com/a'', ''http://example.com/b'', ''http://example.com/c''}"
      unfolding same .
    with other show False ..
  qed
  then have "\<not> (graph_nodes (graph abcd_final) =
          {''http://example.com/a'', ''http://example.com/b'', ''http://example.com/c''} \<and>
       graph_edges (graph abcd_final) =
          {(''http://example.com/a'', ''http://example.com/b''),
           (''http://example.com/a'', ''http://example.com/c'')})"
    by (rule contrapos_nn) (erule conjunct1)
  with abcd_crawl show ?thesis by (rule conjI)
qed

text \<open>
  C2 (as amended). The crawl records every link of every page it fetches: the graph has
  the nodes \<^verbatim>\<open>a\<close>, \<^verbatim>\<open>b\<close>, \<^verbatim>\<open>c\<close>, \<^verbatim>\<open>d\<close> and the edges \<^verbatim>\<open>(a,b)\<close>, \<^verbatim>\<open>(a,c)\<close>, \<^verbatim>\<open>(b,d)\<close>. Node
  \<^verbatim>\<open>d\<close>, found at depth 2, has no depth attribute and is never requested.
\<close>

theorem depth_two_leaf_recorded_not_fetched:
  "crawl (site abcd_pages) (CrawlManager_init ''http://example.com/a'' 1 []) = Inr abcd_final \<and>
   graph_nodes (graph abcd_final) =
     {''http://example.com/a'', ''http://example.com/b'', ''http://example.com/c'',
      ''http://example.com/d''} \<and>
   graph_edges (graph abcd_final) =
     {(''http://example.com/a'', ''http://example.com/b''),
      (''http://example.com/a'', ''http://example.com/c''),
      (''http://example.com/b'', ''http://example.com/d'')} \<and>
   depth_of (graph abcd_final) ''http://example.com/d'' = None \<and>
   ''http://example.com/d'' \<notin> set (requests_made abcd_final) \<and>
   ''http://example.com/d'' \<notin> visited_urls abcd_final"
proof (intro conjI)
  show "crawl (site abcd_pages) (CrawlManager_init ''http://example.com/a'' 1 []) = Inr abcd_final"
    by (rule abcd_crawl)
  show "graph_nodes (graph abcd_final) =
     {''http://example.com/a'', ''http://example.com/b'', ''http://example.com/c'',
      ''http://example.com/d''}"
    by (simp add: graph_nodes_def abcd_final_def)
  show "graph_edges (graph abcd_final) =
     {(''http://example.com/a'', ''http://example.com/b''),
      (''http://example.com/a'', ''http://example.com/c''),
      (''http://example.com/b'', ''http://example.com/d'')}"
    by (simp add: graph_edges_def abcd_final_def)
  show "depth_of (graph abcd_final) ''http://example.com/d'' = None"
    by (simp add: depth_of_def abcd_final_def)
  show "''http://example.com/d'' \<notin> set (requests_made abcd_final)"
    by (simp add: abcd_final_def)
  show "''http://example.com/d'' \<notin> visited_urls abcd_final"
    by (simp add: abcd_final_def)
qed

lemma after_page_a_queue:
  "urls_to_visit after_page_a = (''http://example.com/b'', 1) # [(''http://example.com/c'', 1)]"
  by (simp add: after_page_a_def)

lemma after_page_a_fresh: "''http://example.com/b'' \<notin> visited_urls after_page_a"
  by (simp add: after_page_a_def)

lemma after_page_a_depth: "1 \<le> max_depth after_page_a"
  by (simp add: after_page_a_def)

lemma shared_first: "crawl_iterations 1 (site shared_pages)
    (CrawlManager_init ''http://example.com/a'' 2 []) = Inr after_page_a"
  by code_simp

lemma shared_second: "crawl_iteration (site shared_pages) after_page_a = Inr shared_after_b"
  by code_simp

lemma shared_third: "crawl_iteration (site shared_pages) shared_after_b = Inr shared_after_c"
  by code_simp

lemma shared_two: "crawl_iterations 2 (site shared_pages)
    (CrawlManager_init ''http://example.com/a'' 2 []) = Inr shared_after_b"
  by code_simp

lemma shared_three: "crawl_iterations 3 (site shared_pages)
    (CrawlManager_init ''http://example.com/a'' 2 []) = Inr shared_after_c"
  by code_simp

text \<open>
  C3 (as stated) fails on \<open>shared_pages\<close>: after two iterations \<^verbatim>\<open>c\<close> is pending twice,
  after three it is visited and still pending.
\<close>

theorem frontier_overlap_counterexample:
  "crawl_iterations 2 (site shared_pages) (CrawlManager_init ''http://example.com/a'' 2 [])
     = Inr shared_after_b \<and>
   \<not> distinct (map fst (urls_to_visit shared_after_b)) \<and>
   crawl_iterations 3 (site shared_pages) (CrawlManager_init ''http://example.com/a'' 2 [])
     = Inr shared_after_c \<and>
   fst ` set (urls_to_visit shared_after_c) \<inter> visited_urls shared_after_c \<noteq> {}"
proof -
  have dup: "\<not> distinct (map fst (urls_to_visit shared_after_b))"
    by (simp add: shared_after_b_def)
  have overlap: "fst ` set (urls_to_visit shared_after_c) \<inter> visited_urls shared_after_c \<noteq> {}"
    by (simp add: shared_after_c_def)
  show ?thesis
    by (rule conjI [OF shared_two conjI [OF dup conjI [OF shared_three overlap]]])
qed

theorem visited_once_enqueue_unvisited_witness:
  "urls_to_visit after_page_a = (''http://example.com/b'', 1) # [(''http://example.com/c'', 1)] \<and>
   crawl_iteration (site shared_pages) after_page_a = Inr shared_after_b \<and>
   ''http://example.com/b'' \<notin> visited_urls after_page_a \<and>
   (if ''http://example.com/b'' \<in> visited_urls after_page_a
    then visited_urls shared_after_b = visited_urls after_page_a \<and>
         urls_to_visit shared_after_b = [(''http://example.com/c'', 1)] \<and>
         requests_made shared_after_b = requests_made after_page_a
    else visited_urls shared_after_b = visited_urls after_page_a \<or>
         visited_urls shared_after_b =
           insert ''http://example.com/b'' (visited_urls after_page_a)) \<and>
   take (length [(''http://example.com/c'', 1::int)]) (urls_to_visit shared_after_b) =
     [(''http://example.com/c'', 1)] \<and>
   fst ` set (drop (length [(''http://example.com/c'', 1::int)]) (urls_to_visit shared_after_b)) \<inter>
     visited_urls shared_after_b = {}"
  by (rule conjI [OF after_page_a_queue conjI [OF shared_second conjI [OF after_page_a_fresh
        visited_once_enqueue_unvisited [OF after_page_a_queue shared_second]]]])

theorem each_url_fetched_at_most_once_witness:
  "crawl_iterations 3 (site shared_pages) (CrawlManager_init ''http://example.com/a'' 2 [])
     = Inr shared_after_c \<and>
   count_list (requests_made shared_after_c) ''http://example.com/c'' \<le> 1"
  by (rule conjI [OF shared_three each_url_fetched_at_most_once [OF shared_three]])

lemma broken_b_first: "crawl_iterations 1 (site broken_b_pages)
    (CrawlManager_init ''http://example.com/a'' 2 []) = Inr after_page_a"
  by code_simp

lemma broken_b_rest: "crawl_iterations (Suc 3) (site broken_b_pages) after_page_a = Inr broken_b_final"
  by code_simp

lemma broken_b_fails:
  "requests_get (site broken_b_pages) (length (requests_made after_page_a)) ''http://example.com/b''
     = RequestException"
  by (simp add: site_def broken_b_pages_def)





text \<open>
  C4 (as stated) fails: the first request times out, a second one would have succeeded,
  and the crawl ends after that single request.
\<close>

theorem no_retry_counterexample:
  "requests_get (site flaky_pages) 0 ''http://example.com/a'' = RequestException \<and>
   requests_get (site flaky_pages) 1 ''http://example.com/a'' = Response [''/next''] \<and>
   crawl (site flaky_pages) (CrawlManager_init ''http://example.com/a'' 2 []) = Inr flaky_final \<and>
   requests_made flaky_final = [''http://example.com/a'']"
proof -
  have "crawl_iterations 1 (site flaky_pages) (CrawlManager_init ''http://example.com/a'' 2 [])
          = Inr flaky_final"
    by code_simp
  moreover have "urls_to_visit flaky_final = []"
    by (simp add: flaky_final_def)
  ultimately have "crawl (site flaky_pages) (CrawlManager_init ''http://example.com/a'' 2 [])
          = Inr flaky_final"
    by (rule crawl_of_iterations)
  note crawled = this
  have first: "requests_get (site flaky_pages) 0 ''http://example.com/a'' = RequestException"
    by (simp add: site_def flaky_pages_def)
  have second: "requests_get (site flaky_pages) 1 ''http://example.com/a'' = Response [''/next'']"
    by (simp add: site_def flaky_pages_def)
  have log: "requests_made flaky_final = [''http://example.com/a'']"
    by (simp add: flaky_final_def)
  show ?thesis
    by (rule conjI [OF first conjI [OF second conjI [OF crawled log]]])
qed

theorem failed_fetch_is_final_witness:
  "crawl_iterations 1 (site broken_b_pages) (CrawlManager_init ''http://example.com/a'' 2 [])
     = Inr after_page_a \<and>
   requests_get (site broken_b_pages) (length (requests_made after_page_a)) ''http://example.com/b''
     = RequestException \<and>
   crawl_iterations (Suc 3) (site broken_b_pages) after_page_a = Inr broken_b_final \<and>
   get_links_from_page (site broken_b_pages) (length (requests_made after_page_a))
     ''http://example.com/b'' = Inr [] \<and>
   count_list (requests_made broken_b_final) ''http://example.com/b'' = 1 \<and>
   ''http://example.com/b'' \<in> visited_urls broken_b_final"
  by (rule conjI [OF broken_b_first conjI [OF broken_b_fails conjI [OF broken_b_rest
        failed_fetch_is_final
          [OF broken_b_first after_page_a_queue after_page_a_fresh after_page_a_depth
              broken_b_fails broken_b_rest]]]])

text \<open>
  The rows of the crawl of \<open>abcd_pages\<close>, assembled for its start URL: depth 0 at the
  start node, and at most one more at the target of every edge.
\<close>

lemma abcd_rows_depth_step:
  "crawl_iterations 4 (site abcd_pages) (CrawlManager_init ''http://example.com/a'' 1 [])
     = Inr abcd_final \<and>
   depth_of (build_graph (website_links abcd_final) ''http://example.com/a'')
     ''http://example.com/a'' = Some 0 \<and>
   depth_step_ok (build_graph (website_links abcd_final) ''http://example.com/a'')"
proof -
  have run: "crawl_iterations 4 (site abcd_pages) (CrawlManager_init ''http://example.com/a'' 1 [])
               = Inr abcd_final"
    by code_simp
  have present: "has_node (build_graph (website_links abcd_final) ''http://example.com/a'')
                   ''http://example.com/a''"
    by (simp add: abcd_final_def assembler_eval)
  note step = crawl_rows_depth_step [OF run]
  have zero: "depth_of (build_graph (website_links abcd_final) ''http://example.com/a'')
                ''http://example.com/a'' = Some 0"
    by (rule step [THEN conjunct1, THEN mp, OF present])
  have ok: "depth_step_ok (build_graph (website_links abcd_final) ''http://example.com/a'')"
    by (rule step [THEN conjunct2])
  show ?thesis
    by (rule conjI [OF run conjI [OF zero ok]])
qed

end
